theory Spec2Isabelle
  imports Main "HOL-Library.Sublist" "HOL-Library.Multiset"
begin

section \<open>Strings\<close>

text \<open>
  A JavaScript string is a sequence of UTF-16 code units. The model's \<open>string\<close> is a
  list of characters, and a character stands for the code unit of the same number, so the
  strings of the model are the strings over the code units U+0000 to U+00FF (Latin-1).

  White space, for the regular expression \<open>\s\<close> and for the trimming that
  \<open>parseInt\<close> does, is in this range: tab, line feed, vertical tab, form feed,
  carriage return, space and the no-break space U+00A0.
\<close>

definition isSpace :: "char \<Rightarrow> bool" where
  "isSpace c =
     (c \<in> set [CHR 0x09, CHR 0x0A, CHR 0x0B, CHR 0x0C, CHR 0x0D, CHR 0x20, CHR 0xA0])"

definition isDigit :: "char \<Rightarrow> bool" where
  "isDigit c = (c \<in> set ''0123456789'')"

text \<open>
  \<open>s.toLowerCase()\<close> works code unit by code unit in this range: the letters A to Z
  and the letters U+00C0 to U+00DE, the multiplication sign U+00D7 apart, move up by
  0x20; every other code unit, U+00DF and U+00B5 among them, stays.
\<close>

definition upperLetters :: "char list" where
  "upperLetters = ''ABCDEFGHIJKLMNOPQRSTUVWXYZ'' @
       [CHR 0xC0, CHR 0xC1, CHR 0xC2, CHR 0xC3, CHR 0xC4, CHR 0xC5, CHR 0xC6, CHR 0xC7,
        CHR 0xC8, CHR 0xC9, CHR 0xCA, CHR 0xCB, CHR 0xCC, CHR 0xCD, CHR 0xCE, CHR 0xCF,
        CHR 0xD0, CHR 0xD1, CHR 0xD2, CHR 0xD3, CHR 0xD4, CHR 0xD5, CHR 0xD6, CHR 0xD8,
        CHR 0xD9, CHR 0xDA, CHR 0xDB, CHR 0xDC, CHR 0xDD, CHR 0xDE]"

definition lowerLetters :: "char list" where
  "lowerLetters = ''abcdefghijklmnopqrstuvwxyz'' @
       [CHR 0xE0, CHR 0xE1, CHR 0xE2, CHR 0xE3, CHR 0xE4, CHR 0xE5, CHR 0xE6, CHR 0xE7,
        CHR 0xE8, CHR 0xE9, CHR 0xEA, CHR 0xEB, CHR 0xEC, CHR 0xED, CHR 0xEE, CHR 0xEF,
        CHR 0xF0, CHR 0xF1, CHR 0xF2, CHR 0xF3, CHR 0xF4, CHR 0xF5, CHR 0xF6, CHR 0xF8,
        CHR 0xF9, CHR 0xFA, CHR 0xFB, CHR 0xFC, CHR 0xFD, CHR 0xFE]"

definition lowerChar :: "char \<Rightarrow> char" where
  "lowerChar c =
     (case map_of (zip upperLetters lowerLetters) c of
        None \<Rightarrow> c
      | Some d \<Rightarrow> d)"

definition toLowerCase :: "string \<Rightarrow> string" where
  "toLowerCase s = map lowerChar s"

text \<open>\<open>xs.join(sep)\<close>\<close>

fun join :: "string \<Rightarrow> string list \<Rightarrow> string" where
  "join sep [] = []"
| "join sep [x] = x"
| "join sep (x # y # ys) = x @ sep @ join sep (y # ys)"

text \<open>\<open>s.startsWith(w)\<close> and \<open>s.includes(w)\<close>\<close>

fun startsWith :: "string \<Rightarrow> string \<Rightarrow> bool" where
  "startsWith s [] = True"
| "startsWith [] (c # w) = False"
| "startsWith (d # s) (c # w) = (d = c \<and> startsWith s w)"

fun includes_str :: "string \<Rightarrow> string \<Rightarrow> bool" where
  "includes_str [] w = (w = [])"
| "includes_str (c # s) w = (startsWith (c # s) w \<or> includes_str s w)"

text \<open>
  \<open>s.split(/\s+/)\<close>: the pieces between the maximal runs of whitespace. A string that
  starts or ends with whitespace yields an empty first or last piece, and the empty string
  yields one empty piece.
\<close>

function split_ws :: "string \<Rightarrow> string list" where
  "split_ws s =
     takeWhile (\<lambda>c. \<not> isSpace c) s #
       (case dropWhile (\<lambda>c. \<not> isSpace c) s of
          [] \<Rightarrow> []
        | c # r \<Rightarrow> split_ws (dropWhile isSpace r))"
  by pat_completeness auto
termination
proof (relation "measure length")
  show "wf (measure length)" by simp
next
  fix s :: string and c r
  assume a: "dropWhile (\<lambda>c. \<not> isSpace c) s = c # r"
  have "length (dropWhile isSpace r) \<le> length r"
    by (rule length_dropWhile_le)
  also have "length r < length (dropWhile (\<lambda>c. \<not> isSpace c) s)"
    using a by simp
  also have "\<dots> \<le> length s"
    by (rule length_dropWhile_le)
  finally show "(dropWhile isSpace r, s) \<in> measure length" by simp
qed

declare split_ws.simps [simp del]

text \<open>Splitting at every single separator character.\<close>

fun splitOn :: "(char \<Rightarrow> bool) \<Rightarrow> string \<Rightarrow> string list" where
  "splitOn P [] = [[]]"
| "splitOn P (c # cs) =
     (if P c then [] # splitOn P cs
      else (case splitOn P cs of [] \<Rightarrow> [[c]] | p # ps \<Rightarrow> (c # p) # ps))"

section \<open>Records\<close>

text \<open>
  The three record kinds share an identifier, tags and the originating session; the
  generic functions of the source (\<open>T extends { tags: string[] }\<close>,
  \<open>MemoryStore<{ id: string }>\<close>) work on any extension of the common part.
\<close>

record MemoryBase =
  id' :: string
  tags :: "string list"
  sourceSession :: string

record ProceduralMemory = MemoryBase +
  name :: string
  trigger :: string
  steps :: "string list"
  created :: string
  updated :: string

record Reflection =
  mistakes :: "string list"
  lessons :: "string list"

record EpisodicMemory = MemoryBase +
  summary :: string
  details :: "string list"
  reflection :: "Reflection option"
  date :: string

datatype Category = Preference | Architecture | Convention | Fact

record SemanticMemory = MemoryBase +
  category :: Category
  text' :: string
  created :: string

section \<open>Search\<close>

definition searchMemories ::
  "'a MemoryBase_scheme list \<Rightarrow> string \<Rightarrow> ('a MemoryBase_scheme \<Rightarrow> string)
     \<Rightarrow> 'a MemoryBase_scheme list" where
  "searchMemories memories query getText =
     (let lower = toLowerCase query;
          queryWords = filter (\<lambda>w. w \<noteq> []) (split_ws lower)
      in filter
           (\<lambda>m. let text = toLowerCase (getText m);
                    tagText = toLowerCase (join '' '' (tags m));
                    combined = text @ '' '' @ tagText
                in list_all (\<lambda>w. includes_str combined w) queryWords)
           memories)"

section \<open>Identifier allocation\<close>

record 'a MemoryStore =
  memories :: "'a list"

text \<open>
  \<open>s.replace(pat, rep)\<close> with a string pattern replaces the first occurrence of the
  pattern. The source only replaces by the empty string, so the dollar patterns of the
  replacement text play no part.
\<close>

fun replaceFirst :: "string \<Rightarrow> string \<Rightarrow> string \<Rightarrow> string" where
  "replaceFirst [] pat rep = (if pat = [] then rep else [])"
| "replaceFirst (c # s) pat rep =
     (if startsWith (c # s) pat then rep @ drop (length pat) (c # s)
      else c # replaceFirst s pat rep)"

definition digitVal :: "char \<Rightarrow> nat" where
  "digitVal c =
     (case map_of (zip ''0123456789'' [0, 1, 2, 3, 4, 5, 6, 7, 8, 9]) c of
        None \<Rightarrow> 0
      | Some d \<Rightarrow> d)"

definition decimal :: "string \<Rightarrow> nat" where
  "decimal ds = foldl (\<lambda>n c. 10 * n + digitVal c) 0 ds"

text \<open>
  \<open>parseInt(s, 10)\<close>: leading whitespace is skipped, one sign is read, and the longest run
  of decimal digits that follows is the number; \<open>None\<close> is NaN, returned when no digit
  follows. JavaScript numbers are doubles: the integer returned here is the one the
  source computes as long as it is below \<open>2 ^ 53\<close> in absolute value.
\<close>

definition parseInt :: "string \<Rightarrow> int option" where
  "parseInt str =
     (let S = dropWhile isSpace str;
          sign = (case S of [] \<Rightarrow> 1 | c # r \<Rightarrow> if c = CHR ''-'' then - 1 else (1::int));
          S' = (case S of [] \<Rightarrow> [] | c # r \<Rightarrow> if c = CHR ''-'' \<or> c = CHR ''+'' then r else S);
          Z = takeWhile isDigit S'
      in if Z = [] then None else Some (sign * int (decimal Z)))"

text \<open>\<open>String(n)\<close> for a natural number and \<open>s.padStart(n, c)\<close> for a one-character pad.\<close>

definition digitChar :: "nat \<Rightarrow> char" where
  "digitChar d = ''0123456789'' ! d"

fun numToString :: "nat \<Rightarrow> string" where
  "numToString n =
     (if n < 10 then [digitChar n] else numToString (n div 10) @ [digitChar (n mod 10)])"

declare numToString.simps [simp del]

definition padStart :: "nat \<Rightarrow> char \<Rightarrow> string \<Rightarrow> string" where
  "padStart n c s = replicate (n - length s) c @ s"

text \<open>The body of the loop of \<open>generateId\<close>: one identifier against the running maximum.\<close>

definition generateId_step :: "string \<Rightarrow> int \<Rightarrow> 'a MemoryBase_scheme \<Rightarrow> int" where
  "generateId_step pfx mx m =
     (case parseInt (replaceFirst (id' m) (pfx @ ''_'') []) of
        None \<Rightarrow> mx
      | Some num \<Rightarrow> if num > mx then num else mx)"

definition generateId :: "string \<Rightarrow> 'a MemoryBase_scheme MemoryStore \<Rightarrow> string" where
  "generateId pfx store =
     (let mx = foldl (generateId_step pfx) 0 (memories store)
      in pfx @ ''_'' @ padStart 3 (CHR ''0'') (numToString (nat (mx + 1))))"

text \<open>
  The numeric suffix of an identifier under a prefix, in the words of the specification:
  the identifier is the prefix, an underscore and one or more decimal digits, and the
  suffix is the number the digits denote.
\<close>

definition numeric_suffix :: "string \<Rightarrow> string \<Rightarrow> nat option" where
  "numeric_suffix pfx ident =
     (let rest = drop (length pfx + 1) ident
      in if startsWith ident (pfx @ ''_'') \<and> rest \<noteq> [] \<and> list_all isDigit rest
         then Some (decimal rest) else None)"

definition prior_maximum :: "string \<Rightarrow> 'a MemoryBase_scheme list \<Rightarrow> nat" where
  "prior_maximum pfx ms = Max (set (0 # List.map_filter (\<lambda>m. numeric_suffix pfx (id' m)) ms))"

section \<open>Compaction\<close>

text \<open>
  \<open>[...new Set(xs)]\<close>: the elements of \<open>xs\<close> without repetitions, each at the place of its
  first occurrence.
\<close>

fun uniq :: "'a list \<Rightarrow> 'a list" where
  "uniq [] = []"
| "uniq (x # xs) = x # uniq (filter (\<lambda>y. y \<noteq> x) xs)"

text \<open>
  The \<open>Map\<close> of the source is a list of entries in insertion order. \<open>set\<close> on a key that is
  present replaces the value where the entry stands; on a new key it adds the entry at the
  end. \<open>delete\<close> removes the entry.
\<close>

type_synonym tagGroups = "(string \<times> EpisodicMemory list) list"

fun Map_set :: "'k \<Rightarrow> 'v \<Rightarrow> ('k \<times> 'v) list \<Rightarrow> ('k \<times> 'v) list" where
  "Map_set k v [] = [(k, v)]"
| "Map_set k v ((k', v') # es) = (if k' = k then (k, v) # es else (k', v') # Map_set k v es)"

definition Map_delete :: "'k \<Rightarrow> ('k \<times> 'v) list \<Rightarrow> ('k \<times> 'v) list" where
  "Map_delete k es = filter (\<lambda>e. fst e \<noteq> k) es"

definition split_comma :: "string \<Rightarrow> string list" where
  "split_comma key = splitOn (\<lambda>c. c = CHR '','') key"

text \<open>
  The body of the first loop of \<open>compactEpisodicMemories\<close>: the record joins the first
  group whose key shares a tag with it, and that group is stored again under the merged
  key; a record that no group takes opens a group under its own tags, or under its
  identifier when the joined tags are the empty string.
\<close>

definition place :: "tagGroups \<Rightarrow> EpisodicMemory \<Rightarrow> tagGroups" where
  "place tagGroups m =
     (case find (\<lambda>(key, grp). list_ex (\<lambda>t. t \<in> set (split_comma key)) (tags m)) tagGroups of
        Some (key, grp) \<Rightarrow>
          (let groupTags = uniq (split_comma key);
               mergedTags = uniq (groupTags @ tags m)
           in Map_set (join '','' mergedTags) (grp @ [m]) (Map_delete key tagGroups))
      | None \<Rightarrow>
          Map_set (if join '','' (tags m) \<noteq> [] then join '','' (tags m) else id' m) [m] tagGroups)"

text \<open>The consolidated record of a group of two or more.\<close>

definition mergeGroup :: "EpisodicMemory list \<Rightarrow> EpisodicMemory" where
  "mergeGroup grp =
     (let allDetails = concat (map details grp);
          allTags = uniq (concat (map tags grp));
          allMistakes = concat (map (\<lambda>m. case reflection m of None \<Rightarrow> [] | Some r \<Rightarrow> mistakes r) grp);
          allLessons = concat (map (\<lambda>m. case reflection m of None \<Rightarrow> [] | Some r \<Rightarrow> lessons r) grp);
          summaries = map summary grp
      in \<lparr>id' = id' (hd grp),
          tags = allTags,
          sourceSession = sourceSession (last grp),
          summary = ''Consolidated: '' @ join ''; '' summaries,
          details = uniq allDetails,
          reflection =
            (if allMistakes \<noteq> [] \<or> allLessons \<noteq> []
             then Some \<lparr>mistakes = uniq allMistakes, lessons = uniq allLessons\<rparr>
             else None),
          date = date (last grp)\<rparr>)"

definition emit :: "EpisodicMemory list \<Rightarrow> EpisodicMemory list" where
  "emit grp = (if length grp \<le> 1 then grp else [mergeGroup grp])"

definition compactEpisodicMemories :: "EpisodicMemory list \<Rightarrow> EpisodicMemory list" where
  "compactEpisodicMemories ms =
     (if length ms \<le> 1 then ms
      else (let tagGroups = foldl place [] ms
            in concat (map (\<lambda>(key, grp). emit grp) tagGroups)))"

text \<open>
  The tag a record opens a group with: its first tag, or its identifier when it has no
  tags. The first piece of a key of the map is the tag its group was opened with.
\<close>

definition opener :: "EpisodicMemory \<Rightarrow> string" where
  "opener m = (case tags m of [] \<Rightarrow> id' m | t # ts \<Rightarrow> t)"

definition khead :: "string \<Rightarrow> string" where
  "khead key = hd (split_comma key)"

text \<open>
  Inputs on which the keys of the map stand for sets of tags: every tag is a non-empty
  string without a comma, and the records without tags have identifiers without a comma
  that differ from one another and from every tag of the input.
\<close>

definition plain_tags :: "EpisodicMemory list \<Rightarrow> bool" where
  "plain_tags ms =
     (list_all (\<lambda>m. list_all (\<lambda>t. t \<noteq> [] \<and> CHR '','' \<notin> set t) (tags m)) ms
      \<and> list_all (\<lambda>m. tags m = [] \<longrightarrow>
            CHR '','' \<notin> set (id' m) \<and> list_all (\<lambda>m'. id' m \<notin> set (tags m')) ms) ms
      \<and> distinct (map id' (filter (\<lambda>m. tags m = []) ms)))"

text \<open>
  What holds of the map after each record of such an input: the groups were opened with
  different tags, none is empty, they stand in the order of their last members, they were
  opened by records already seen, and together they hold the records seen so far.
\<close>

definition compaction_inv :: "tagGroups \<Rightarrow> EpisodicMemory list \<Rightarrow> bool" where
  "compaction_inv tagGroups seen =
     (distinct (map (\<lambda>e. khead (fst e)) tagGroups)
      \<and> list_all (\<lambda>e. snd e \<noteq> []) tagGroups
      \<and> subseq (map (\<lambda>e. last (snd e)) tagGroups) seen
      \<and> set (map (\<lambda>e. khead (fst e)) tagGroups) \<subseteq> set (map opener seen)
      \<and> mset (concat (map snd tagGroups)) = mset seen)"

text \<open>
  The same pass over clusters that carry a list of tags and no key. The record joins the
  first cluster that has one of its tags; that cluster takes the tags of the record and
  moves behind every other cluster. A record that no cluster takes opens a cluster behind
  every other one. A record without tags has a tag in common with no cluster, and no
  later record has one in common with the cluster it opens.
\<close>

type_synonym clusters = "(string list \<times> EpisodicMemory list) list"

definition cluster_step :: "clusters \<Rightarrow> EpisodicMemory \<Rightarrow> clusters" where
  "cluster_step cs m =
     (case find (\<lambda>(ts, grp). list_ex (\<lambda>t. t \<in> set ts) (tags m)) cs of
        Some (ts, grp) \<Rightarrow> remove1 (ts, grp) cs @ [(uniq (ts @ tags m), grp @ [m])]
      | None \<Rightarrow> cs @ [(tags m, [m])])"

text \<open>
  An entry of the map stands for a cluster: the same records, under the key that is the
  tags of the cluster joined by commas, or, for a cluster without tags, under a key
  without a comma that is none of the tags in \<open>T\<close>.
\<close>

definition encodes ::
  "string set \<Rightarrow> string \<times> EpisodicMemory list \<Rightarrow> string list \<times> EpisodicMemory list \<Rightarrow> bool" where
  "encodes T e c =
     (snd e = snd c
      \<and> (if fst c = [] then CHR '','' \<notin> set (fst e) \<and> fst e \<notin> T
          else fst e = join '','' (fst c) \<and> (\<forall>t\<in>set (fst c). CHR '','' \<notin> set t)))"

section \<open>Storage\<close>

text \<open>
  A file is modelled by what reading and parsing it gives: the file is absent
  (\<open>existsSync\<close> is false), it cannot be read (\<open>readFileSync\<close> throws), its text is
  not JSON (\<open>JSON.parse\<close> throws), or its text is JSON and \<open>JSON.parse\<close> returns a value.
  The value is seen at the type \<open>MemoryStore<T>\<close> the source casts it to: either it is a
  collection of records of that type, or it is some other JSON value.
\<close>

datatype json =
    JNull
  | JBool bool
  | JNumber int
  | JString string
  | JArray "json list"
  | JObject "(string \<times> json) list"

datatype 'r parsed = Collection "'r MemoryStore" | Foreign json

datatype 'v fileState = NoFile | Unreadable | NotJson | Json 'v

type_synonym 'v fs = "string \<Rightarrow> 'v fileState"

datatype MemoryScope = Project | Global

text \<open>
  What the source takes from its platform: the home directory, the constant
  \<open>CONFIG_DIR_NAME\<close> of the configuration module, \<open>path.join\<close> and the clock
  (\<open>nowISO k\<close> is the time stamp that the \<open>k\<close>-th reading of the clock in one call
  returns).
\<close>

record host =
  homedir :: string
  CONFIG_DIR_NAME :: string
  path_join :: "string list \<Rightarrow> string"
  nowISO :: "nat \<Rightarrow> string"

definition getGlobalMemoryDir :: "host \<Rightarrow> string" where
  "getGlobalMemoryDir h = path_join h [homedir h, CONFIG_DIR_NAME h, ''agent'', ''memory'']"

definition getProjectMemoryDir :: "host \<Rightarrow> string \<Rightarrow> string" where
  "getProjectMemoryDir h cwd = path_join h [cwd, CONFIG_DIR_NAME h, ''memory'']"

definition getMemoryDir :: "host \<Rightarrow> string \<Rightarrow> MemoryScope \<Rightarrow> string" where
  "getMemoryDir h cwd scope =
     (if scope = Global then getGlobalMemoryDir h else getProjectMemoryDir h cwd)"

definition loadStore :: "host \<Rightarrow> 'r parsed fs \<Rightarrow> string \<Rightarrow> string \<Rightarrow> MemoryScope \<Rightarrow> 'r parsed" where
  "loadStore h files cwd filename scope =
     (let filepath = path_join h [getMemoryDir h cwd scope, filename]
      in case files filepath of
           NoFile \<Rightarrow> Collection \<lparr>memories = []\<rparr>
         | Unreadable \<Rightarrow> Collection \<lparr>memories = []\<rparr>
         | NotJson \<Rightarrow> Collection \<lparr>memories = []\<rparr>
         | Json v \<Rightarrow> v)"

text \<open>
  \<open>saveStore\<close> replaces the whole document. The directory that \<open>ensureMemoryDir\<close> creates
  is not part of the model, and the write is taken to succeed.
\<close>

definition saveStore ::
  "host \<Rightarrow> 'r parsed fs \<Rightarrow> string \<Rightarrow> string \<Rightarrow> 'r MemoryStore \<Rightarrow> MemoryScope \<Rightarrow> 'r parsed fs" where
  "saveStore h files cwd filename store scope =
     (let dir = getMemoryDir h cwd scope;
          filepath = path_join h [dir, filename]
      in files(filepath := Json (Collection store)))"

section \<open>The tools\<close>

record MemoryToolContext =
  cwd :: string
  sessionId :: string
  scope :: MemoryScope

text \<open>
  The file system keeps the outcome of reading each path and the list of the paths written
  so far. The three store files are distinct paths and each is read at the type of its own
  record kind, so the model keeps one view of the file system for each kind.
\<close>

record 'v fsView =
  contents :: "'v fs"
  written :: "string list"

record world =
  procedural_files :: "ProceduralMemory parsed fsView"
  episodic_files :: "EpisodicMemory parsed fsView"
  semantic_files :: "SemanticMemory parsed fsView"

definition load :: "host \<Rightarrow> MemoryToolContext \<Rightarrow> 'r parsed fsView \<Rightarrow> string \<Rightarrow> 'r parsed" where
  "load h ctx view filename = loadStore h (contents view) (cwd ctx) filename (scope ctx)"

definition save ::
  "host \<Rightarrow> MemoryToolContext \<Rightarrow> 'r parsed fsView \<Rightarrow> string \<Rightarrow> 'r MemoryStore \<Rightarrow> 'r parsed fsView" where
  "save h ctx view filename store =
     \<lparr>contents = saveStore h (contents view) (cwd ctx) filename store (scope ctx),
      written = written view @ [path_join h [getMemoryDir h (cwd ctx) (scope ctx), filename]]\<rparr>"

text \<open>
  A value that is not a collection, returned by \<open>loadStore\<close> under its cast, is outside
  the types of the code that uses it (on a value without an array under \<open>memories\<close> the
  tools raise a \<open>TypeError\<close> at their first array method call). What the untyped code
  does with such a value is not modelled: the model stops there with an error that carries
  the value.
\<close>

datatype error = UnsoundCast json

datatype MemoryType = Procedural | Episodic | Semantic

record MemoryWriteInput =
  type_param :: MemoryType
  name_param :: "string option"
  trigger_param :: "string option"
  steps_param :: "string list option"
  summary_param :: "string option"
  details_param :: "string list option"
  category_param :: "Category option"
  text_param :: "string option"
  tags_param :: "string list option"
  reflection_mistakes :: "string list option"
  reflection_lessons :: "string list option"

datatype Action = Created | Updated | Duplicate

datatype Details = NoDetails | ActionId Action string | Deleted bool

record ToolResult =
  content_text :: string
  result_details :: Details

definition dquote :: string where
  "dquote = [CHR 0x22]"

definition categoryName :: "Category \<Rightarrow> string" where
  "categoryName c =
     (case c of
        Preference \<Rightarrow> ''preference''
      | Architecture \<Rightarrow> ''architecture''
      | Convention \<Rightarrow> ''convention''
      | Fact \<Rightarrow> ''fact'')"

text \<open>\<open>xs.find(P)\<close> followed by assignments to the fields of the record found.\<close>

fun mutateFound :: "('a \<Rightarrow> bool) \<Rightarrow> ('a \<Rightarrow> 'a) \<Rightarrow> 'a list \<Rightarrow> 'a list" where
  "mutateFound P f [] = []"
| "mutateFound P f (x # xs) = (if P x then f x # xs else x # mutateFound P f xs)"

fun findIndex :: "('a \<Rightarrow> bool) \<Rightarrow> 'a list \<Rightarrow> nat option" where
  "findIndex P [] = None"
| "findIndex P (x # xs) =
     (if P x then Some 0 else (case findIndex P xs of None \<Rightarrow> None | Some i \<Rightarrow> Some (Suc i)))"

text \<open>The branch of \<open>memory_write\<close> for procedural memories.\<close>

definition write_procedural ::
  "host \<Rightarrow> MemoryToolContext \<Rightarrow> world \<Rightarrow> MemoryWriteInput \<Rightarrow> string list
     \<Rightarrow> error + (ToolResult \<times> world)" where
  "write_procedural h ctx w params tgs =
     (case (name_param params, trigger_param params, steps_param params) of
        (Some nm, Some trg, Some stps) \<Rightarrow>
          (if nm = [] \<or> trg = [] \<or> stps = [] then
             Inr (\<lparr>content_text = ''Error: procedural memory requires name, trigger, and steps.'',
                   result_details = NoDetails\<rparr>, w)
           else
             (case load h ctx (procedural_files w) ''procedural.json'' of
                Foreign j \<Rightarrow> Inl (UnsoundCast j)
              | Collection store \<Rightarrow>
                  (case find (\<lambda>m. name m = nm) (memories store) of
                     Some existing \<Rightarrow>
                       (let store' = store\<lparr>memories :=
                              mutateFound (\<lambda>m. name m = nm)
                                (\<lambda>e. e\<lparr>steps := stps, trigger := trg,
                                       tags := uniq (tags e @ tgs), updated := nowISO h 0\<rparr>)
                                (memories store)\<rparr>
                        in Inr (\<lparr>content_text = ''Updated procedural memory ['' @ id' existing @ ''] ''
                                    @ dquote @ nm @ dquote @ ''.'',
                                  result_details = ActionId Updated (id' existing)\<rparr>,
                                w\<lparr>procedural_files :=
                                    save h ctx (procedural_files w) ''procedural.json'' store'\<rparr>))
                   | None \<Rightarrow>
                       (let ident = generateId ''proc'' store;
                            store' = store\<lparr>memories := memories store @
                              [\<lparr>id' = ident, tags = tgs, sourceSession = sessionId ctx,
                                name = nm, trigger = trg, steps = stps,
                                created = nowISO h 0, updated = nowISO h 1\<rparr>]\<rparr>
                        in Inr (\<lparr>content_text = ''Saved procedural memory ['' @ ident @ ''] ''
                                    @ dquote @ nm @ dquote @ ''.'',
                                  result_details = ActionId Created ident\<rparr>,
                                w\<lparr>procedural_files :=
                                    save h ctx (procedural_files w) ''procedural.json'' store'\<rparr>)))))
      | _ \<Rightarrow>
          Inr (\<lparr>content_text = ''Error: procedural memory requires name, trigger, and steps.'',
                result_details = NoDetails\<rparr>, w))"

text \<open>The branch for episodic memories.\<close>

definition write_episodic ::
  "host \<Rightarrow> MemoryToolContext \<Rightarrow> world \<Rightarrow> MemoryWriteInput \<Rightarrow> string list
     \<Rightarrow> error + (ToolResult \<times> world)" where
  "write_episodic h ctx w params tgs =
     (case summary_param params of
        Some smry \<Rightarrow>
          (if smry = [] then
             Inr (\<lparr>content_text = ''Error: episodic memory requires a summary.'',
                   result_details = NoDetails\<rparr>, w)
           else
             (case load h ctx (episodic_files w) ''episodic.json'' of
                Foreign j \<Rightarrow> Inl (UnsoundCast j)
              | Collection store \<Rightarrow>
                  (let ident = generateId ''ep'' store;
                       rm = (case reflection_mistakes params of None \<Rightarrow> [] | Some xs \<Rightarrow> xs);
                       rl = (case reflection_lessons params of None \<Rightarrow> [] | Some xs \<Rightarrow> xs);
                       refl = (if rm \<noteq> [] \<or> rl \<noteq> []
                               then Some \<lparr>mistakes = rm, lessons = rl\<rparr> else None);
                       store' = store\<lparr>memories := memories store @
                         [\<lparr>id' = ident, tags = tgs, sourceSession = sessionId ctx,
                           summary = smry,
                           details = (case details_param params of None \<Rightarrow> [] | Some ds \<Rightarrow> ds),
                           reflection = refl,
                           date = hd (splitOn (\<lambda>c. c = CHR ''T'') (nowISO h 0))\<rparr>]\<rparr>
                   in Inr (\<lparr>content_text = ''Saved episodic memory ['' @ ident @ ''] ''
                               @ dquote @ smry @ dquote @ ''.'',
                             result_details = ActionId Created ident\<rparr>,
                           w\<lparr>episodic_files :=
                               save h ctx (episodic_files w) ''episodic.json'' store'\<rparr>))))
      | None \<Rightarrow>
          Inr (\<lparr>content_text = ''Error: episodic memory requires a summary.'',
                result_details = NoDetails\<rparr>, w))"

text \<open>The branch for semantic memories.\<close>

definition write_semantic ::
  "host \<Rightarrow> MemoryToolContext \<Rightarrow> world \<Rightarrow> MemoryWriteInput \<Rightarrow> string list
     \<Rightarrow> error + (ToolResult \<times> world)" where
  "write_semantic h ctx w params tgs =
     (case (text_param params, category_param params) of
        (Some txt, Some cat) \<Rightarrow>
          (if txt = [] then
             Inr (\<lparr>content_text = ''Error: semantic memory requires text and category.'',
                   result_details = NoDetails\<rparr>, w)
           else
             (case load h ctx (semantic_files w) ''semantic.json'' of
                Foreign j \<Rightarrow> Inl (UnsoundCast j)
              | Collection store \<Rightarrow>
                  (case find (\<lambda>m. category m = cat \<and> toLowerCase (text' m) = toLowerCase txt)
                          (memories store) of
                     Some existing \<Rightarrow>
                       Inr (\<lparr>content_text = ''This semantic memory already exists [''
                                 @ id' existing @ ''].'',
                               result_details = ActionId Duplicate (id' existing)\<rparr>, w)
                   | None \<Rightarrow>
                       (let ident = generateId ''sem'' store;
                            store' = store\<lparr>memories := memories store @
                              [\<lparr>id' = ident, tags = tgs, sourceSession = sessionId ctx,
                                category = cat, text' = txt, created = nowISO h 0\<rparr>]\<rparr>
                        in Inr (\<lparr>content_text = ''Saved semantic memory ['' @ ident @ ''] (''
                                    @ categoryName cat @ ''): '' @ dquote @ txt @ dquote @ ''.'',
                                  result_details = ActionId Created ident\<rparr>,
                                w\<lparr>semantic_files :=
                                    save h ctx (semantic_files w) ''semantic.json'' store'\<rparr>)))))
      | _ \<Rightarrow>
          Inr (\<lparr>content_text = ''Error: semantic memory requires text and category.'',
                result_details = NoDetails\<rparr>, w))"

text \<open>
  \<open>memoryWriteTool.execute\<close>. The kind is one of the three literals of the schema, so the
  last return of the source (unknown memory type) is not reached.
\<close>

definition memory_write ::
  "host \<Rightarrow> MemoryToolContext \<Rightarrow> world \<Rightarrow> MemoryWriteInput \<Rightarrow> error + (ToolResult \<times> world)" where
  "memory_write h memoryContext w params =
     (let tgs = (case tags_param params of None \<Rightarrow> [] | Some ts \<Rightarrow> ts)
      in case type_param params of
           Procedural \<Rightarrow> write_procedural h memoryContext w params tgs
         | Episodic \<Rightarrow> write_episodic h memoryContext w params tgs
         | Semantic \<Rightarrow> write_semantic h memoryContext w params tgs)"

text \<open>
  One round of the loop of \<open>memoryDeleteTool.execute\<close>: \<open>None\<close> when the file does not
  hold the identifier, the file system after \<open>splice\<close> and \<open>saveStore\<close> when it does.
\<close>

definition delete_from ::
  "host \<Rightarrow> MemoryToolContext \<Rightarrow> 'a MemoryBase_scheme parsed fsView \<Rightarrow> string \<Rightarrow> string
     \<Rightarrow> error + 'a MemoryBase_scheme parsed fsView option" where
  "delete_from h ctx view filename ident =
     (case load h ctx view filename of
        Foreign j \<Rightarrow> Inl (UnsoundCast j)
      | Collection store \<Rightarrow>
          (case findIndex (\<lambda>m. id' m = ident) (memories store) of
             None \<Rightarrow> Inr None
           | Some idx \<Rightarrow>
               Inr (Some (save h ctx view filename
                      (store\<lparr>memories := take idx (memories store) @ drop (Suc idx) (memories store)\<rparr>)))))"

definition deleted_result :: "string \<Rightarrow> string \<Rightarrow> ToolResult" where
  "deleted_result ident filename =
     \<lparr>content_text = ''Deleted memory ['' @ ident @ ''] from ''
          @ replaceFirst filename ''.json'' [] @ ''.'',
      result_details = Deleted True\<rparr>"

definition memory_delete ::
  "host \<Rightarrow> MemoryToolContext \<Rightarrow> world \<Rightarrow> string \<Rightarrow> error + (ToolResult \<times> world)" where
  "memory_delete h memoryContext w ident =
     (case delete_from h memoryContext (procedural_files w) ''procedural.json'' ident of
        Inl e \<Rightarrow> Inl e
      | Inr (Some v) \<Rightarrow> Inr (deleted_result ident ''procedural.json'', w\<lparr>procedural_files := v\<rparr>)
      | Inr None \<Rightarrow>
     (case delete_from h memoryContext (episodic_files w) ''episodic.json'' ident of
        Inl e \<Rightarrow> Inl e
      | Inr (Some v) \<Rightarrow> Inr (deleted_result ident ''episodic.json'', w\<lparr>episodic_files := v\<rparr>)
      | Inr None \<Rightarrow>
     (case delete_from h memoryContext (semantic_files w) ''semantic.json'' ident of
        Inl e \<Rightarrow> Inl e
      | Inr (Some v) \<Rightarrow> Inr (deleted_result ident ''semantic.json'', w\<lparr>semantic_files := v\<rparr>)
      | Inr None \<Rightarrow>
          Inr (\<lparr>content_text = ''No memory found with ID '' @ dquote @ ident @ dquote @ ''.'',
                result_details = Deleted False\<rparr>, w))))"

section \<open>The prompt section\<close>

















section \<open>A concrete host\<close>

text \<open>
  A host whose paths are joined with a slash and whose clock reads \<open>2024-05-01T10:00:0k.000Z\<close>
  at its \<open>k\<close>-th reading, a file system with one file, and one without files: the inputs
  of the worked examples.
\<close>

definition example_host :: host where
  "example_host =
     \<lparr>homedir = ''/home/u'', CONFIG_DIR_NAME = ''.pi'', path_join = join ''/'',
      nowISO = (\<lambda>k. ''2024-05-01T10:00:0'' @ numToString k @ ''.000Z'')\<rparr>"

definition example_context :: MemoryToolContext where
  "example_context = \<lparr>cwd = ''/w'', sessionId = ''session_1'', scope = Project\<rparr>"

definition one_file :: "string \<Rightarrow> 'v fileState \<Rightarrow> 'v fs" where
  "one_file path st = (\<lambda>p. if p = path then st else NoFile)"

definition no_files :: "'v fsView" where
  "no_files = \<lparr>contents = (\<lambda>p. NoFile), written = []\<rparr>"

definition holding :: "string \<Rightarrow> 'r list \<Rightarrow> 'r parsed fsView" where
  "holding path ms = \<lparr>contents = one_file path (Json (Collection \<lparr>memories = ms\<rparr>)), written = []\<rparr>"

definition blank_input :: "MemoryType \<Rightarrow> MemoryWriteInput" where
  "blank_input k =
     \<lparr>type_param = k, name_param = None, trigger_param = None, steps_param = None,
      summary_param = None, details_param = None, category_param = None, text_param = None,
      tags_param = None, reflection_mistakes = None, reflection_lessons = None\<rparr>"

definition example_episode :: "string \<Rightarrow> string list \<Rightarrow> EpisodicMemory" where
  "example_episode n ts =
     \<lparr>id' = ''ep_00'' @ n, tags = ts, sourceSession = ''session_'' @ n,
      summary = ''task '' @ n, details = [''step '' @ n], reflection = None,
      date = ''2024-05-0'' @ n\<rparr>"

section \<open>Properties of the string functions\<close>

text \<open>
  White space and lower-casing by the number of the code unit: white space is U+0009 to
  U+000D, U+0020 and U+00A0; lower-casing adds 0x20 to U+0041 to U+005A and to U+00C0 to
  U+00DE other than U+00D7, and leaves every other code unit as it is.
\<close>

lemma isSpace_code_units:
  "isSpace c \<longleftrightarrow> (of_char c :: nat) \<in> {9, 10, 11, 12, 13, 32, 160}"
  by (cases c) (simp add: isSpace_def)

lemma lowerChar_code_units:
  "(of_char (lowerChar c) :: nat) =
     (if (65 \<le> (of_char c :: nat) \<and> (of_char c :: nat) \<le> 90)
         \<or> (192 \<le> (of_char c :: nat) \<and> (of_char c :: nat) \<le> 222 \<and> (of_char c :: nat) \<noteq> 215)
      then of_char c + 32 else of_char c)"
  by (cases c) (simp add: lowerChar_def upperLetters_def lowerLetters_def)

lemma toLowerCase_append: "toLowerCase (a @ b) = toLowerCase a @ toLowerCase b"
  by (simp add: toLowerCase_def)

lemma toLowerCase_space: "toLowerCase '' '' = '' ''"
  by (simp add: toLowerCase_def lowerChar_def upperLetters_def lowerLetters_def)

lemma startsWith_iff: "startsWith s w \<longleftrightarrow> (\<exists>r. s = w @ r)"
  by (induction s w rule: startsWith.induct) auto

lemma includes_str_iff: "includes_str s w \<longleftrightarrow> (\<exists>p r. s = p @ w @ r)"
proof (induction s)
  case Nil
  then show ?case by auto
next
  case (Cons c s)
  show ?case
  proof
    assume "includes_str (c # s) w"
    then consider "startsWith (c # s) w" | "includes_str s w" by auto
    then show "\<exists>p r. c # s = p @ w @ r"
    proof cases
      case 1
      then obtain r where "c # s = w @ r" by (auto simp: startsWith_iff)
      then have "c # s = [] @ w @ r" by simp
      then show ?thesis by blast
    next
      case 2
      then obtain p r where "s = p @ w @ r" using Cons.IH by blast
      then have "c # s = (c # p) @ w @ r" by simp
      then show ?thesis by blast
    qed
  next
    assume "\<exists>p r. c # s = p @ w @ r"
    then obtain p r where e: "c # s = p @ w @ r" by blast
    show "includes_str (c # s) w"
    proof (cases p)
      case Nil
      with e have "startsWith (c # s) w" by (auto simp: startsWith_iff)
      then show ?thesis by simp
    next
      case (Cons d p')
      with e have "s = p' @ w @ r" by simp
      then have "includes_str s w" using Cons.IH by blast
      then show ?thesis by simp
    qed
  qed
qed

lemma splitOn_not_Nil: "splitOn P s \<noteq> []"
  by (induction s) (auto split: list.splits)

lemma splitOn_run:
  "\<forall>c\<in>set a. \<not> P c \<Longrightarrow> splitOn P (a @ b) = (a @ hd (splitOn P b)) # tl (splitOn P b)"
proof (induction a)
  case Nil
  then show ?case using splitOn_not_Nil [of P b] by (cases "splitOn P b") auto
next
  case (Cons c a)
  then show ?case by (auto split: list.splits)
qed

lemma splitOn_dropWhile:
  "filter (\<lambda>w. w \<noteq> []) (splitOn P (dropWhile P s)) = filter (\<lambda>w. w \<noteq> []) (splitOn P s)"
  by (induction s) auto

lemma split_ws_splitOn:
  "filter (\<lambda>w. w \<noteq> []) (split_ws s) = filter (\<lambda>w. w \<noteq> []) (splitOn isSpace s)"
proof (induction s rule: split_ws.induct)
  case (1 s)
  let ?a = "takeWhile (\<lambda>c. \<not> isSpace c) s"
  let ?b = "dropWhile (\<lambda>c. \<not> isSpace c) s"
  have s: "s = ?a @ ?b" by simp
  have a: "\<forall>c\<in>set ?a. \<not> isSpace c" by (auto dest: set_takeWhileD)
  show ?case
  proof (cases ?b)
    case Nil
    then have "s = ?a" by (metis append_Nil2 takeWhile_dropWhile_id)
    moreover have "splitOn isSpace (?a @ []) = (?a @ hd (splitOn isSpace [])) # tl (splitOn isSpace [])"
      using a by (rule splitOn_run)
    ultimately have "splitOn isSpace s = [?a]" by simp
    moreover have "split_ws s = [?a]"
      by (subst split_ws.simps) (simp only: Nil list.case)
    ultimately show ?thesis by simp
  next
    case (Cons c r)
    have c: "isSpace c" using Cons hd_dropWhile [of "\<lambda>c. \<not> isSpace c" s] by auto
    have "splitOn isSpace (?a @ ?b) = (?a @ hd (splitOn isSpace ?b)) # tl (splitOn isSpace ?b)"
      using a by (rule splitOn_run)
    then have "splitOn isSpace s = ?a # splitOn isSpace r"
      using s Cons c by simp
    moreover have "split_ws s = ?a # split_ws (dropWhile isSpace r)"
      by (subst split_ws.simps) (simp only: Cons list.case)
    moreover have "filter (\<lambda>w. w \<noteq> []) (split_ws (dropWhile isSpace r))
                     = filter (\<lambda>w. w \<noteq> []) (splitOn isSpace (dropWhile isSpace r))"
      using "1.IH" Cons by simp
    ultimately show ?thesis by (simp add: splitOn_dropWhile)
  qed
qed

lemma split_ws_blank:
  "\<forall>c\<in>set s. isSpace c \<Longrightarrow> filter (\<lambda>w. w \<noteq> []) (split_ws s) = []"
  unfolding split_ws_splitOn by (induction s) auto

section \<open>Search: claims\<close>

text \<open>
  C3. For every record list and every text projection, searching with the empty query and
  with a query of three spaces returns the whole record list in its order: the lower-cased
  query has no non-empty token, so every record passes.
\<close>

theorem C3_blank_query_returns_all:
  "searchMemories ms [] getText = ms \<and>
   searchMemories ms ''   '' getText = ms"
proof -
  have lower: "toLowerCase [] = [] \<and> toLowerCase ''   '' = ''   ''"
    by (simp add: toLowerCase_def lowerChar_def upperLetters_def lowerLetters_def)
  have "filter (\<lambda>w. w \<noteq> []) (split_ws []) = []"
    by (rule split_ws_blank) simp
  moreover have "filter (\<lambda>w. w \<noteq> []) (split_ws ''   '') = []"
    by (rule split_ws_blank) (simp add: isSpace_def)
  ultimately show ?thesis
    by (simp add: searchMemories_def lower)
qed

theorem C3_blank_query_witness:
  "searchMemories
     [\<lparr>id' = ''sem_001'', tags = [''infra''], sourceSession = ''s1''\<rparr>,
      \<lparr>id' = ''sem_002'', tags = [], sourceSession = ''s2''\<rparr>] ''   '' id'
   = [\<lparr>id' = ''sem_001'', tags = [''infra''], sourceSession = ''s1''\<rparr>,
      \<lparr>id' = ''sem_002'', tags = [], sourceSession = ''s2''\<rparr>]"
  using C3_blank_query_returns_all
    [of "[\<lparr>id' = ''sem_001'', tags = [''infra''], sourceSession = ''s1''\<rparr>,
          \<lparr>id' = ''sem_002'', tags = [], sourceSession = ''s2''\<rparr>]" id']
  by simp

text \<open>
  C7. The query is lower-cased and split on whitespace, empty tokens are discarded, and the
  result is exactly the records, in collection order, for which every token is a substring
  of the lower-cased concatenation of the projected text, a space and the space-joined
  tags. A record with text "deploy the service" and tags ["infra"] matches the query
  "deploy infra" and does not match "deploy database".
\<close>

theorem C7_search_token_conjunctive:
  "searchMemories ms query getText =
     filter
       (\<lambda>m. \<forall>w. w \<in> set (splitOn isSpace (toLowerCase query)) \<and> w \<noteq> [] \<longrightarrow>
              (\<exists>p r. toLowerCase (getText m @ '' '' @ join '' '' (tags m)) = p @ w @ r))
       ms
   \<and> searchMemories
       [\<lparr>id' = ''sem_001'', tags = [''infra''], sourceSession = ''s1'',
         category = Fact, text' = ''deploy the service'', created = ''t''\<rparr>]
       ''deploy infra'' text'
     = [\<lparr>id' = ''sem_001'', tags = [''infra''], sourceSession = ''s1'',
         category = Fact, text' = ''deploy the service'', created = ''t''\<rparr>]
   \<and> searchMemories
       [\<lparr>id' = ''sem_001'', tags = [''infra''], sourceSession = ''s1'',
         category = Fact, text' = ''deploy the service'', created = ''t''\<rparr>]
       ''deploy database'' text'
     = []"
proof (intro conjI)
  have tok: "set (filter (\<lambda>w. w \<noteq> []) (split_ws s)) = {w \<in> set (splitOn isSpace s). w \<noteq> []}"
    for s
    by (simp add: split_ws_splitOn)
  have comb: "toLowerCase (getText m) @ '' '' @ toLowerCase (join '' '' (tags m))
                = toLowerCase (getText m @ '' '' @ join '' '' (tags m))" for m
    by (simp only: toLowerCase_append toLowerCase_space)
  show "searchMemories ms query getText =
     filter
       (\<lambda>m. \<forall>w. w \<in> set (splitOn isSpace (toLowerCase query)) \<and> w \<noteq> [] \<longrightarrow>
              (\<exists>p r. toLowerCase (getText m @ '' '' @ join '' '' (tags m)) = p @ w @ r))
       ms"
    unfolding searchMemories_def Let_def list_all_iff tok comb includes_str_iff
    by (rule filter_cong) auto
next
  show "searchMemories
       [\<lparr>id' = ''sem_001'', tags = [''infra''], sourceSession = ''s1'',
         category = Fact, text' = ''deploy the service'', created = ''t''\<rparr>]
       ''deploy infra'' text'
     = [\<lparr>id' = ''sem_001'', tags = [''infra''], sourceSession = ''s1'',
         category = Fact, text' = ''deploy the service'', created = ''t''\<rparr>]"
    by code_simp
next
  show "searchMemories
       [\<lparr>id' = ''sem_001'', tags = [''infra''], sourceSession = ''s1'',
         category = Fact, text' = ''deploy the service'', created = ''t''\<rparr>]
       ''deploy database'' text'
     = []"
    by code_simp
qed

theorem C7_search_witness:
  "searchMemories
     [\<lparr>id' = ''ep_001'', tags = [''Infra'', ''CAF'' @ [CHR 0xC9]], sourceSession = ''s1''\<rparr>]
     (''caf'' @ [CHR 0xE9, CHR 0xA0, CHR 0x20] @ ''EP'') id'
   = [\<lparr>id' = ''ep_001'', tags = [''Infra'', ''CAF'' @ [CHR 0xC9]], sourceSession = ''s1''\<rparr>]"
proof -
  let ?m = "\<lparr>id' = ''ep_001'', tags = [''Infra'', ''CAF'' @ [CHR 0xC9]], sourceSession = ''s1''\<rparr>"
  let ?q = "''caf'' @ [CHR 0xE9, CHR 0xA0, CHR 0x20] @ ''EP''"
  let ?low = "''ep_001 infra caf'' @ [CHR 0xE9]"
  define P :: "MemoryBase \<Rightarrow> bool" where
    "P = (\<lambda>m. \<forall>w. w \<in> set (splitOn isSpace (toLowerCase ?q)) \<and> w \<noteq> [] \<longrightarrow>
              (\<exists>p r. toLowerCase (id' m @ '' '' @ join '' '' (tags m)) = p @ w @ r))"
  have toks: "splitOn isSpace (toLowerCase ?q) = [''caf'' @ [CHR 0xE9], [], ''ep'']"
    by code_simp
  have low: "toLowerCase (id' ?m @ '' '' @ join '' '' (tags ?m)) = ?low"
    by code_simp
  have k: "\<exists>p r. ?low = p @ (''caf'' @ [CHR 0xE9]) @ r"
    unfolding includes_str_iff [symmetric] by code_simp
  have e: "\<exists>p r. ?low = p @ ''ep'' @ r"
    unfolding includes_str_iff [symmetric] by code_simp
  have "\<forall>w. w \<in> set [''caf'' @ [CHR 0xE9], [], ''ep''] \<and> w \<noteq> [] \<longrightarrow>
          (\<exists>p r. ?low = p @ w @ r)"
  proof (intro allI impI)
    fix w :: string
    assume "w \<in> set [''caf'' @ [CHR 0xE9], [], ''ep''] \<and> w \<noteq> []"
    then have "w = ''caf'' @ [CHR 0xE9] \<or> w = ''ep''" by auto
    then show "\<exists>p r. ?low = p @ w @ r" using k e by blast
  qed
  then have "P ?m"
    unfolding P_def by (simp only: toks low)
  then have "filter P [?m] = [?m]"
    by simp
  then show ?thesis
    using C7_search_token_conjunctive [of "[?m]" ?q id']
    unfolding P_def by (simp only:)
qed

section \<open>Storage: claims\<close>

lemma loadStore_saveStore:
  "loadStore h (saveStore h files wd filename store sc) wd filename sc = Collection store"
  by (simp add: loadStore_def saveStore_def)

lemma load_save: "load h ctx (save h ctx view filename store) filename = Collection store"
  by (simp add: load_def save_def loadStore_saveStore)

text \<open>
  C2, as the source has it. \<open>loadStore\<close> returns the empty collection when the file does
  not exist, cannot be read or does not hold JSON text. When the text is JSON,
  \<open>loadStore\<close> returns the parsed value whatever its shape: the source casts the value
  and does not check it.
\<close>

theorem C2_loadStore_empty_or_parsed:
  "(files (path_join h [getMemoryDir h wd sc, filename]) \<in> {NoFile, Unreadable, NotJson}
      \<longrightarrow> loadStore h files wd filename sc = Collection \<lparr>memories = []\<rparr>)
   \<and> (\<forall>v. files (path_join h [getMemoryDir h wd sc, filename]) = Json v
      \<longrightarrow> loadStore h files wd filename sc = v)"
  by (auto simp: loadStore_def)

theorem C2_loadStore_witness:
  "loadStore example_host (one_file ''/w/.pi/memory/semantic.json'' NotJson)
      ''/w'' ''semantic.json'' Project
     = (Collection \<lparr>memories = []\<rparr> :: SemanticMemory parsed)
   \<and> loadStore example_host
        (one_file ''/home/u/.pi/agent/memory/semantic.json''
           (Json (Collection \<lparr>memories = [\<lparr>id' = ''x'', tags = [], sourceSession = ''s''\<rparr>]\<rparr>)))
        ''/w'' ''semantic.json'' Global
     = Collection \<lparr>memories = [\<lparr>id' = ''x'', tags = [], sourceSession = ''s''\<rparr>]\<rparr>"
proof -
  have p1: "path_join example_host [getMemoryDir example_host ''/w'' Project, ''semantic.json'']
              = ''/w/.pi/memory/semantic.json''"
    by (simp add: example_host_def getMemoryDir_def getProjectMemoryDir_def)
  have p2: "path_join example_host [getMemoryDir example_host ''/w'' Global, ''semantic.json'']
              = ''/home/u/.pi/agent/memory/semantic.json''"
    by (simp add: example_host_def getMemoryDir_def getGlobalMemoryDir_def)
  show ?thesis
    using C2_loadStore_empty_or_parsed
            [of "one_file ''/w/.pi/memory/semantic.json'' (NotJson :: SemanticMemory parsed fileState)"
                example_host "''/w''" Project "''semantic.json''"]
          C2_loadStore_empty_or_parsed
            [of "one_file ''/home/u/.pi/agent/memory/semantic.json''
                   (Json (Collection \<lparr>memories = [\<lparr>id' = ''x'', tags = [], sourceSession = ''s''\<rparr>]\<rparr>))"
                example_host "''/w''" Global "''semantic.json''"]
    unfolding p1 p2 by (simp add: one_file_def)
qed

text \<open>
  The claim as stated fails: a file that holds the JSON text of the empty object parses,
  the value is not a collection, and \<open>loadStore\<close> returns it.
\<close>

theorem C2_loadStore_counterexample:
  "loadStore example_host (one_file ''/w/.pi/memory/semantic.json'' (Json (Foreign (JObject []))))
      ''/w'' ''semantic.json'' Project
     = (Foreign (JObject []) :: SemanticMemory parsed)
   \<and> loadStore example_host (one_file ''/w/.pi/memory/semantic.json'' (Json (Foreign (JObject []))))
      ''/w'' ''semantic.json'' Project
     \<noteq> (Collection \<lparr>memories = []\<rparr> :: SemanticMemory parsed)"
  by (simp add: loadStore_def example_host_def getMemoryDir_def getProjectMemoryDir_def one_file_def)


section \<open>The tools: claims\<close>

lemma findIndex_None: "findIndex P xs = None \<longleftrightarrow> (\<forall>x\<in>set xs. \<not> P x)"
  by (induction xs) (auto split: option.splits)

lemma delete_from_absent:
  assumes "load h ctx view filename = Collection store"
      and "ident \<notin> id' ` set (memories store)"
  shows "delete_from h ctx view filename ident = Inr None"
proof -
  have "findIndex (\<lambda>m. id' m = ident) (memories store) = None"
    using assms(2) by (auto simp: findIndex_None)
  then show ?thesis
    using assms(1) by (simp add: delete_from_def)
qed

text \<open>
  C8. When the identifier is in none of the three collections, \<open>memory_delete\<close> answers
  \<open>deleted: false\<close> and the world after the call is the world before it: no file was
  written and the three collections are as they were.
\<close>

theorem C8_delete_absent_identifier:
  assumes "load h ctx (procedural_files w) ''procedural.json'' = Collection ps"
      and "load h ctx (episodic_files w) ''episodic.json'' = Collection es"
      and "load h ctx (semantic_files w) ''semantic.json'' = Collection ss"
      and "ident \<notin> id' ` set (memories ps)"
      and "ident \<notin> id' ` set (memories es)"
      and "ident \<notin> id' ` set (memories ss)"
  shows "memory_delete h ctx w ident =
           Inr (\<lparr>content_text = ''No memory found with ID '' @ dquote @ ident @ dquote @ ''.'',
                 result_details = Deleted False\<rparr>, w)"
proof -
  have "delete_from h ctx (procedural_files w) ''procedural.json'' ident = Inr None"
    using assms(1,4) by (rule delete_from_absent)
  moreover have "delete_from h ctx (episodic_files w) ''episodic.json'' ident = Inr None"
    using assms(2,5) by (rule delete_from_absent)
  moreover have "delete_from h ctx (semantic_files w) ''semantic.json'' ident = Inr None"
    using assms(3,6) by (rule delete_from_absent)
  ultimately show ?thesis
    by (simp add: memory_delete_def)
qed

lemma example_paths:
  "path_join example_host [getMemoryDir example_host (cwd example_context) (scope example_context), f]
     = ''/w/.pi/memory/'' @ f"
  by (simp add: example_host_def example_context_def getMemoryDir_def getProjectMemoryDir_def)

lemma load_no_files: "load example_host example_context no_files f = Collection \<lparr>memories = []\<rparr>"
  by (simp add: load_def loadStore_def no_files_def)

lemma load_holding:
  "load example_host example_context (holding (''/w/.pi/memory/'' @ f) ms) f
     = Collection \<lparr>memories = ms\<rparr>"
  unfolding load_def loadStore_def Let_def example_paths
  by (simp add: holding_def one_file_def)

theorem C8_delete_absent_witness:
  "memory_delete example_host example_context
     \<lparr>procedural_files = no_files, episodic_files = no_files,
      semantic_files = holding ''/w/.pi/memory/semantic.json''
        [\<lparr>id' = ''sem_001'', tags = [], sourceSession = ''s'', category = Fact,
          text' = ''use tabs'', created = ''t''\<rparr>]\<rparr>
     ''sem_002''
   = Inr (\<lparr>content_text = ''No memory found with ID '' @ dquote @ ''sem_002'' @ dquote @ ''.'',
           result_details = Deleted False\<rparr>,
          \<lparr>procedural_files = no_files, episodic_files = no_files,
           semantic_files = holding ''/w/.pi/memory/semantic.json''
             [\<lparr>id' = ''sem_001'', tags = [], sourceSession = ''s'', category = Fact,
               text' = ''use tabs'', created = ''t''\<rparr>]\<rparr>)"
proof -
  let ?m = "\<lparr>id' = ''sem_001'', tags = [], sourceSession = ''s'', category = Fact,
              text' = ''use tabs'', created = ''t''\<rparr>"
  let ?w = "\<lparr>procedural_files = no_files, episodic_files = no_files,
              semantic_files = holding ''/w/.pi/memory/semantic.json'' [?m]\<rparr>"
  have a: "load example_host example_context (procedural_files ?w) ''procedural.json''
             = Collection \<lparr>memories = []\<rparr>"
    by (simp add: load_no_files)
  have b: "load example_host example_context (episodic_files ?w) ''episodic.json''
             = Collection \<lparr>memories = []\<rparr>"
    by (simp add: load_no_files)
  have c: "load example_host example_context (semantic_files ?w) ''semantic.json''
             = Collection \<lparr>memories = [?m]\<rparr>"
    using load_holding [of "''semantic.json''" "[?m]"] by simp
  show ?thesis
    by (rule C8_delete_absent_identifier [OF a b c]) simp_all
qed

lemma find_mutateFound:
  "find P xs = Some x \<Longrightarrow>
     \<exists>i<length xs. xs ! i = x \<and> P x \<and> (\<forall>j<i. \<not> P (xs ! j)) \<and> mutateFound P f xs = xs[i := f x]"
proof (induction xs)
  case Nil
  then show ?case by simp
next
  case (Cons a xs)
  show ?case
  proof (cases "P a")
    case True
    with Cons.prems have "a = x" by simp
    with True have "(a # xs) ! 0 = x \<and> P x \<and> (\<forall>j<0. \<not> P ((a # xs) ! j))
        \<and> mutateFound P f (a # xs) = (a # xs)[0 := f x]"
      by simp
    then show ?thesis by blast
  next
    case False
    with Cons.prems have "find P xs = Some x" by simp
    then obtain i where i: "i < length xs" "xs ! i = x" "P x" "\<forall>j<i. \<not> P (xs ! j)"
        "mutateFound P f xs = xs[i := f x]"
      using Cons.IH by blast
    have "\<forall>j<Suc i. \<not> P ((a # xs) ! j)"
      using False i(4) by (auto simp: less_Suc_eq_0_disj)
    with i False
    have "Suc i < length (a # xs) \<and> (a # xs) ! Suc i = x \<and> P x
        \<and> (\<forall>j<Suc i. \<not> P ((a # xs) ! j))
        \<and> mutateFound P f (a # xs) = (a # xs)[Suc i := f x]"
      by simp
    then show ?thesis by blast
  qed
qed

lemma find_Some_ex: "\<exists>x\<in>set xs. P x \<Longrightarrow> \<exists>x. find P xs = Some x"
  by (induction xs) auto

text \<open>
  C10. A procedural write whose name is the name of a stored procedure succeeds on the
  update path: the record found (the first with that name) keeps its identifier, its
  creation time stamp and its originating session, the collection has the same length, and
  every other record is as it was.
\<close>

theorem C10_procedural_update_frame:
  assumes "type_param params = Procedural"
      and "name_param params = Some nm" and "nm \<noteq> []"
      and "trigger_param params = Some trg" and "trg \<noteq> []"
      and "steps_param params = Some stps" and "stps \<noteq> []"
      and "load h ctx (procedural_files w) ''procedural.json'' = Collection store"
      and "\<exists>m\<in>set (memories store). name m = nm"
  shows "\<exists>r w' store' i.
           memory_write h ctx w params = Inr (r, w')
         \<and> load h ctx (procedural_files w') ''procedural.json'' = Collection store'
         \<and> i < length (memories store) \<and> name (memories store ! i) = nm
         \<and> (\<forall>j<i. name (memories store ! j) \<noteq> nm)
         \<and> result_details r = ActionId Updated (id' (memories store ! i))
         \<and> length (memories store') = length (memories store)
         \<and> id' (memories store' ! i) = id' (memories store ! i)
         \<and> ProceduralMemory.created (memories store' ! i)
              = ProceduralMemory.created (memories store ! i)
         \<and> sourceSession (memories store' ! i) = sourceSession (memories store ! i)
         \<and> (\<forall>j<length (memories store). j \<noteq> i \<longrightarrow> memories store' ! j = memories store ! j)"
proof -
  let ?tgs = "case tags_param params of None \<Rightarrow> [] | Some ts \<Rightarrow> ts"
  let ?f = "\<lambda>e. e\<lparr>steps := stps, trigger := trg, tags := uniq (tags e @ ?tgs),
                   updated := nowISO h 0\<rparr>"
  obtain x where x: "find (\<lambda>m. name m = nm) (memories store) = Some x"
    using find_Some_ex [OF assms(9)] by blast
  obtain i where i: "i < length (memories store)" "memories store ! i = x" "name x = nm"
      "\<forall>j<i. name (memories store ! j) \<noteq> nm"
      "mutateFound (\<lambda>m. name m = nm) ?f (memories store) = (memories store)[i := ?f x]"
    using find_mutateFound [OF x, of ?f] by blast
  let ?store' = "store\<lparr>memories := (memories store)[i := ?f x]\<rparr>"
  let ?w' = "w\<lparr>procedural_files := save h ctx (procedural_files w) ''procedural.json'' ?store'\<rparr>"
  let ?r = "\<lparr>content_text = ''Updated procedural memory ['' @ id' x @ ''] '' @ dquote @ nm
                @ dquote @ ''.'',
              result_details = ActionId Updated (id' x)\<rparr>"
  have run: "memory_write h ctx w params = Inr (?r, ?w')"
    using assms(1-8) x i(5)
    by (simp add: memory_write_def write_procedural_def Let_def)
  have ld: "load h ctx (procedural_files ?w') ''procedural.json'' = Collection ?store'"
    by (simp add: load_save)
  have "i < length (memories store) \<and> name (memories store ! i) = nm
         \<and> (\<forall>j<i. name (memories store ! j) \<noteq> nm)
         \<and> result_details ?r = ActionId Updated (id' (memories store ! i))
         \<and> length (memories ?store') = length (memories store)
         \<and> id' (memories ?store' ! i) = id' (memories store ! i)
         \<and> ProceduralMemory.created (memories ?store' ! i)
              = ProceduralMemory.created (memories store ! i)
         \<and> sourceSession (memories ?store' ! i) = sourceSession (memories store ! i)
         \<and> (\<forall>j<length (memories store). j \<noteq> i \<longrightarrow> memories ?store' ! j = memories store ! j)"
    using i(1-4) by simp
  with run ld show ?thesis by blast
qed

theorem C10_procedural_update_witness:
  "\<exists>r w' store' i.
     memory_write example_host example_context
       \<lparr>procedural_files = holding ''/w/.pi/memory/procedural.json''
          [\<lparr>id' = ''proc_001'', tags = [''ops''], sourceSession = ''s1'', name = ''deploy'',
            trigger = ''user asks to deploy'', steps = [''build'', ''push''],
            created = ''t1'', updated = ''t1''\<rparr>,
           \<lparr>id' = ''proc_002'', tags = [], sourceSession = ''s2'', name = ''test'',
            trigger = ''user asks to test'', steps = [''run''],
            created = ''t2'', updated = ''t2''\<rparr>],
        episodic_files = no_files, semantic_files = no_files\<rparr>
       ((blank_input Procedural)
          \<lparr>name_param := Some ''test'', trigger_param := Some ''before a merge'',
           steps_param := Some [''lint'', ''run''], tags_param := Some [''ci'']\<rparr>)
       = Inr (r, w')
   \<and> load example_host example_context (procedural_files w') ''procedural.json''
       = Collection store'
   \<and> i = 1
   \<and> result_details r = ActionId Updated ''proc_002''
   \<and> length (memories store') = 2
   \<and> id' (memories store' ! i) = ''proc_002''
   \<and> ProceduralMemory.created (memories store' ! i) = ''t2''
   \<and> sourceSession (memories store' ! i) = ''s2''
   \<and> memories store' ! 0
       = \<lparr>id' = ''proc_001'', tags = [''ops''], sourceSession = ''s1'', name = ''deploy'',
          trigger = ''user asks to deploy'', steps = [''build'', ''push''],
          created = ''t1'', updated = ''t1''\<rparr>"
proof -
  let ?p1 = "\<lparr>id' = ''proc_001'', tags = [''ops''], sourceSession = ''s1'', name = ''deploy'',
            trigger = ''user asks to deploy'', steps = [''build'', ''push''],
            created = ''t1'', updated = ''t1''\<rparr>"
  let ?p2 = "\<lparr>id' = ''proc_002'', tags = [], sourceSession = ''s2'', name = ''test'',
            trigger = ''user asks to test'', steps = [''run''],
            created = ''t2'', updated = ''t2''\<rparr>"
  let ?w = "\<lparr>procedural_files = holding ''/w/.pi/memory/procedural.json'' [?p1, ?p2],
             episodic_files = no_files, semantic_files = no_files\<rparr>"
  let ?params = "(blank_input Procedural)
          \<lparr>name_param := Some ''test'', trigger_param := Some ''before a merge'',
           steps_param := Some [''lint'', ''run''], tags_param := Some [''ci'']\<rparr>"
  let ?store = "\<lparr>memories = [?p1, ?p2]\<rparr>"
  have ld: "load example_host example_context (procedural_files ?w) ''procedural.json''
              = Collection ?store"
    using load_holding [of "''procedural.json''" "[?p1, ?p2]"] by simp
  have ex: "\<exists>m\<in>set (memories ?store). name m = ''test''"
    by simp
  obtain r w' store' i where
      run: "memory_write example_host example_context ?w ?params = Inr (r, w')"
    and l': "load example_host example_context (procedural_files w') ''procedural.json''
              = Collection store'"
    and i: "i < length (memories ?store)" "name (memories ?store ! i) = ''test''"
    and rest: "result_details r = ActionId Updated (id' (memories ?store ! i))"
      "length (memories store') = length (memories ?store)"
      "id' (memories store' ! i) = id' (memories ?store ! i)"
      "ProceduralMemory.created (memories store' ! i)
         = ProceduralMemory.created (memories ?store ! i)"
      "sourceSession (memories store' ! i) = sourceSession (memories ?store ! i)"
      "\<forall>j<length (memories ?store). j \<noteq> i \<longrightarrow> memories store' ! j = memories ?store ! j"
    using C10_procedural_update_frame
            [of ?params "''test''" "''before a merge''" "[''lint'', ''run'']"
                example_host example_context ?w ?store, OF _ _ _ _ _ _ _ ld ex]
    by (auto simp: blank_input_def)
  have i1: "i = 1"
  proof -
    from i(1) have "i = 0 \<or> i = 1" by auto
    with i(2) show ?thesis by auto
  qed
  have zero: "memories store' ! 0 = ?p1"
    using rest(6) i1 by simp
  show ?thesis
    using run l' i1 rest(1-5) zero by (intro exI [of _ r] exI [of _ w'] exI [of _ store'] exI [of _ i]) simp
qed

lemma find_append_new: "find P xs = None \<Longrightarrow> P y \<Longrightarrow> find P (xs @ [y]) = Some y"
  by (induction xs) (auto split: if_splits)

lemma load_other_call:
  "load (h\<lparr>nowISO := clock\<rparr>) (ctx\<lparr>sessionId := sid\<rparr>) view filename = load h ctx view filename"
  by (simp add: load_def loadStore_def getMemoryDir_def getGlobalMemoryDir_def
        getProjectMemoryDir_def)

text \<open>
  C5. Two valid semantic writes with the same category and texts that are equal once
  lower-cased, the second at any later time and from any session: both calls report the
  same identifier, the second reports a duplicate, and the second call leaves the world as
  it found it, so nothing is saved and the collection keeps its length.
\<close>

theorem C5_semantic_duplicate_write:
  assumes "type_param p1 = Semantic" and "type_param p2 = Semantic"
      and "text_param p1 = Some t1" and "t1 \<noteq> []"
      and "text_param p2 = Some t2" and "toLowerCase t1 = toLowerCase t2"
      and "category_param p1 = Some c" and "category_param p2 = Some c"
      and "load h ctx (semantic_files w) ''semantic.json'' = Collection store"
  shows "\<exists>r1 w1 a ident r2.
           memory_write h ctx w p1 = Inr (r1, w1)
         \<and> result_details r1 = ActionId a ident
         \<and> memory_write (h\<lparr>nowISO := clock\<rparr>) (ctx\<lparr>sessionId := sid\<rparr>) w1 p2 = Inr (r2, w1)
         \<and> result_details r2 = ActionId Duplicate ident"
proof -
  let ?h2 = "h\<lparr>nowISO := clock\<rparr>" and ?ctx2 = "ctx\<lparr>sessionId := sid\<rparr>"
  let ?P = "\<lambda>m. category m = c \<and> toLowerCase (text' m) = toLowerCase t1"
  have t2: "t2 \<noteq> []"
    using assms(4,6) by (auto simp: toLowerCase_def)
  let ?tgs = "case tags_param p1 of None \<Rightarrow> [] | Some ts \<Rightarrow> ts"
  show ?thesis
  proof (cases "find ?P (memories store)")
    case (Some existing)
    let ?r = "\<lambda>a. \<lparr>content_text = ''This semantic memory already exists ['' @ id' existing @ ''].'',
                    result_details = ActionId a (id' existing)\<rparr>"
    have one: "memory_write h ctx w p1 = Inr (?r Duplicate, w)"
      using assms(1,3,4,7,9) Some
      by (simp add: memory_write_def write_semantic_def)
    have two: "memory_write ?h2 ?ctx2 w p2 = Inr (?r Duplicate, w)"
      using assms(2,5,8,9) t2 Some
      by (simp add: memory_write_def write_semantic_def load_other_call assms(6) [symmetric])
    from one two show ?thesis by fastforce
  next
    case None
    let ?ident = "generateId ''sem'' store"
    let ?new = "\<lparr>id' = ?ident, tags = ?tgs, sourceSession = sessionId ctx,
                  category = c, text' = t1, created = nowISO h 0\<rparr>"
    let ?store1 = "store\<lparr>memories := memories store @ [?new]\<rparr>"
    let ?w1 = "w\<lparr>semantic_files := save h ctx (semantic_files w) ''semantic.json'' ?store1\<rparr>"
    let ?r1 = "\<lparr>content_text = ''Saved semantic memory ['' @ ?ident @ ''] (''
                   @ categoryName c @ ''): '' @ dquote @ t1 @ dquote @ ''.'',
                 result_details = ActionId Created ?ident\<rparr>"
    let ?r2 = "\<lparr>content_text = ''This semantic memory already exists ['' @ ?ident @ ''].'',
                 result_details = ActionId Duplicate ?ident\<rparr>"
    have one: "memory_write h ctx w p1 = Inr (?r1, ?w1)"
      using assms(1,3,4,7,9) None
      by (simp add: memory_write_def write_semantic_def Let_def)
    have ld: "load ?h2 ?ctx2 (semantic_files ?w1) ''semantic.json'' = Collection ?store1"
      by (simp add: load_other_call load_save)
    have "find ?P (memories ?store1) = Some ?new"
      using find_append_new [OF None, of ?new] by simp
    then have two: "memory_write ?h2 ?ctx2 ?w1 p2 = Inr (?r2, ?w1)"
      using assms(2,5,8) t2 ld
      by (simp add: memory_write_def write_semantic_def assms(6) [symmetric])
    from one two show ?thesis by fastforce
  qed
qed

theorem C5_semantic_duplicate_witness:
  "\<exists>r1 w1 r2.
     memory_write example_host example_context
       \<lparr>procedural_files = no_files, episodic_files = no_files, semantic_files = no_files\<rparr>
       ((blank_input Semantic)\<lparr>category_param := Some Preference, text_param := Some (''Caf'' @ [CHR 0xC9] @ '' Tabs'')\<rparr>)
       = Inr (r1, w1)
   \<and> result_details r1 = ActionId Created ''sem_001''
   \<and> memory_write (example_host\<lparr>nowISO := \<lambda>k. ''2024-06-01T00:00:00.000Z''\<rparr>)
         (example_context\<lparr>sessionId := ''session_2''\<rparr>) w1
         ((blank_input Semantic)\<lparr>category_param := Some Preference, text_param := Some (''caf'' @ [CHR 0xE9] @ '' tabs''),
            tags_param := Some [''style'']\<rparr>)
       = Inr (r2, w1)
   \<and> result_details r2 = ActionId Duplicate ''sem_001''"
proof -
  let ?w = "\<lparr>procedural_files = no_files, episodic_files = no_files, semantic_files = no_files\<rparr>"
  let ?p1 = "(blank_input Semantic)\<lparr>category_param := Some Preference, text_param := Some (''Caf'' @ [CHR 0xC9] @ '' Tabs'')\<rparr>"
  let ?p2 = "(blank_input Semantic)\<lparr>category_param := Some Preference, text_param := Some (''caf'' @ [CHR 0xE9] @ '' tabs''),
            tags_param := Some [''style'']\<rparr>"
  have ld: "load example_host example_context (semantic_files ?w) ''semantic.json''
              = Collection \<lparr>memories = []\<rparr>"
    by (simp add: load_no_files)
  have low: "toLowerCase (''Caf'' @ [CHR 0xC9] @ '' Tabs'')
               = toLowerCase (''caf'' @ [CHR 0xE9] @ '' tabs'')"
    by code_simp
  have gen: "generateId ''sem'' \<lparr>memories = ([] :: SemanticMemory list)\<rparr> = ''sem_001''"
    by code_simp
  obtain r1 w1 a ident r2 where
      one: "memory_write example_host example_context ?w ?p1 = Inr (r1, w1)"
    and d1: "result_details r1 = ActionId a ident"
    and two: "memory_write (example_host\<lparr>nowISO := \<lambda>k. ''2024-06-01T00:00:00.000Z''\<rparr>)
                (example_context\<lparr>sessionId := ''session_2''\<rparr>) w1 ?p2 = Inr (r2, w1)"
    and d2: "result_details r2 = ActionId Duplicate ident"
    using C5_semantic_duplicate_write
            [of ?p1 ?p2 "''Caf'' @ [CHR 0xC9] @ '' Tabs''" "''caf'' @ [CHR 0xE9] @ '' tabs''" Preference example_host example_context ?w
                "\<lparr>memories = []\<rparr>" "\<lambda>k. ''2024-06-01T00:00:00.000Z''" "''session_2''",
             OF _ _ _ _ _ low _ _ ld]
    by (auto simp: blank_input_def)
  have "result_details r1 = ActionId Created ''sem_001''"
    using one ld gen
    by (auto simp: memory_write_def write_semantic_def blank_input_def Let_def)
  with d1 have "ident = ''sem_001''" by simp
  with one two d2 \<open>result_details r1 = ActionId Created ''sem_001''\<close> show ?thesis
    by blast
qed

section \<open>Identifier allocation: claims\<close>

lemma not_space_digit: "isDigit c \<Longrightarrow> \<not> isSpace c \<and> c \<noteq> CHR ''-'' \<and> c \<noteq> CHR ''+''"
  by (auto simp: isDigit_def isSpace_def)

lemma parseInt_digits:
  assumes "ds \<noteq> []" and "list_all isDigit ds"
  shows "parseInt ds = Some (int (decimal ds))"
proof -
  obtain c r where ds: "ds = c # r" using assms(1) by (cases ds) auto
  have c: "isDigit c" using assms(2) ds by simp
  have tw: "takeWhile isDigit ds = ds"
    using assms(2) by (simp add: list_all_iff)
  have dw: "dropWhile isSpace ds = ds"
    using c ds not_space_digit by simp
  have sg: "(case ds of [] \<Rightarrow> [] | c # r \<Rightarrow> if c = CHR ''-'' \<or> c = CHR ''+'' then r else ds) = ds"
    using not_space_digit [OF c] by (simp add: ds)
  have sn: "(case ds of [] \<Rightarrow> 1 | c # r \<Rightarrow> if c = CHR ''-'' then - 1 else (1::int)) = 1"
    using not_space_digit [OF c] by (simp add: ds)
  show ?thesis
    unfolding parseInt_def Let_def dw sg sn tw using assms(1) by simp
qed

lemma replaceFirst_at_start:
  "startsWith s pat \<Longrightarrow> s \<noteq> [] \<Longrightarrow> replaceFirst s pat [] = drop (length pat) s"
  by (cases s) auto

lemma numeric_suffix_parseInt:
  assumes "numeric_suffix pfx ident = Some n"
  shows "parseInt (replaceFirst ident (pfx @ ''_'') []) = Some (int n)"
proof -
  let ?rest = "drop (length pfx + 1) ident"
  from assms have sw: "startsWith ident (pfx @ ''_'')" and ne: "?rest \<noteq> []"
      and dg: "list_all isDigit ?rest" and n: "n = decimal ?rest"
    by (auto simp: numeric_suffix_def Let_def split: if_splits)
  from ne have "ident \<noteq> []" by auto
  with sw have "replaceFirst ident (pfx @ ''_'') [] = ?rest"
    by (simp add: replaceFirst_at_start)
  with ne dg n show ?thesis
    by (simp add: parseInt_digits)
qed

lemma generateId_step_suffix:
  assumes "numeric_suffix pfx (id' m) = None \<longrightarrow> parseInt (replaceFirst (id' m) (pfx @ ''_'') []) = None"
  shows "generateId_step pfx mx m =
           (case numeric_suffix pfx (id' m) of None \<Rightarrow> mx | Some n \<Rightarrow> max mx (int n))"
proof (cases "numeric_suffix pfx (id' m)")
  case None
  with assms show ?thesis by (simp add: generateId_step_def)
next
  case (Some n)
  then show ?thesis
    by (simp add: generateId_step_def numeric_suffix_parseInt max_def)
qed

lemma prior_maximum_Cons:
  "prior_maximum pfx (m # ms) =
     (case numeric_suffix pfx (id' m) of None \<Rightarrow> prior_maximum pfx ms
      | Some n \<Rightarrow> max n (prior_maximum pfx ms))"
  by (auto simp: prior_maximum_def List.map_filter_simps insert_commute split: option.splits)

lemma generateId_loop:
  assumes "\<forall>m\<in>set ms. numeric_suffix pfx (id' m) = None
             \<longrightarrow> parseInt (replaceFirst (id' m) (pfx @ ''_'') []) = None"
      and "0 \<le> mx"
  shows "foldl (generateId_step pfx) mx ms = max mx (int (prior_maximum pfx ms))"
  using assms
proof (induction ms arbitrary: mx)
  case Nil
  then show ?case by (simp add: prior_maximum_def List.map_filter_simps)
next
  case (Cons m ms)
  have step: "generateId_step pfx mx m =
           (case numeric_suffix pfx (id' m) of None \<Rightarrow> mx | Some n \<Rightarrow> max mx (int n))"
    using Cons.prems(1) by (intro generateId_step_suffix) simp
  have nonneg: "0 \<le> generateId_step pfx mx m"
    using Cons.prems(2) by (auto simp: step le_max_iff_disj split: option.splits)
  have "foldl (generateId_step pfx) (generateId_step pfx mx m) ms
          = max (generateId_step pfx mx m) (int (prior_maximum pfx ms))"
    using Cons.prems(1) nonneg by (intro Cons.IH) simp_all
  then show ?case
    by (simp add: step prior_maximum_Cons split: option.splits)
qed

text \<open>
  C4, as the source has it. Take a collection in which every identifier either has a
  numeric suffix under the prefix (it is the prefix, an underscore and decimal digits, the
  number below \<open>2 ^ 53\<close>) or is one in which \<open>parseInt\<close> reads no number once the first
  occurrence of the prefix and underscore is removed. Then \<open>generateId\<close> returns the
  prefix, an underscore and one plus the largest numeric suffix (zero when there is none),
  padded with zeros to three digits; and a valid procedural write with a new name on such
  a collection is answered with that identifier under the prefix \<open>proc\<close>.
\<close>

theorem C4_generateId_next_identifier:
  assumes "\<forall>m\<in>set (memories store). numeric_suffix pfx (id' m) = None
             \<longrightarrow> parseInt (replaceFirst (id' m) (pfx @ ''_'') []) = None"
      and "\<forall>m\<in>set (memories store).
             (case numeric_suffix pfx (id' m) of None \<Rightarrow> True | Some n \<Rightarrow> n < 2 ^ 53)"
  shows "generateId pfx store =
           pfx @ ''_'' @ padStart 3 (CHR ''0'') (numToString (Suc (prior_maximum pfx (memories store))))
       \<and> (type_param params = Procedural
            \<and> name_param params = Some nm \<and> nm \<noteq> []
            \<and> trigger_param params = Some trg \<and> trg \<noteq> []
            \<and> steps_param params = Some stps \<and> stps \<noteq> []
            \<and> load h ctx (procedural_files w) ''procedural.json'' = Collection pstore
            \<and> (\<forall>m\<in>set (memories pstore). name m \<noteq> nm)
            \<and> (\<forall>m\<in>set (memories pstore). numeric_suffix ''proc'' (id' m) = None
                  \<longrightarrow> parseInt (replaceFirst (id' m) ''proc_'' []) = None)
            \<and> (\<forall>m\<in>set (memories pstore).
                  (case numeric_suffix ''proc'' (id' m) of None \<Rightarrow> True | Some n \<Rightarrow> n < 2 ^ 53))
          \<longrightarrow> (\<exists>r w'. memory_write h ctx w params = Inr (r, w')
                 \<and> result_details r =
                     ActionId Created
                       (''proc_'' @ padStart 3 (CHR ''0'')
                          (numToString (Suc (prior_maximum ''proc'' (memories pstore)))))))"
proof (intro conjI impI)
  have gen: "generateId p s =
           p @ ''_'' @ padStart 3 (CHR ''0'') (numToString (Suc (prior_maximum p (memories s))))"
    if "\<forall>m\<in>set (memories s). numeric_suffix p (id' m) = None
             \<longrightarrow> parseInt (replaceFirst (id' m) (p @ ''_'') []) = None"
    for p and s :: "'b MemoryBase_scheme MemoryStore"
  proof -
    have "foldl (generateId_step p) 0 (memories s) = max 0 (int (prior_maximum p (memories s)))"
      using that by (intro generateId_loop) simp_all
    then have "nat (foldl (generateId_step p) 0 (memories s) + 1) = Suc (prior_maximum p (memories s))"
      by simp
    then show ?thesis
      by (simp add: generateId_def Let_def)
  qed
  show "generateId pfx store =
           pfx @ ''_'' @ padStart 3 (CHR ''0'') (numToString (Suc (prior_maximum pfx (memories store))))"
    using assms(1) by (rule gen)
  assume a: "type_param params = Procedural
            \<and> name_param params = Some nm \<and> nm \<noteq> []
            \<and> trigger_param params = Some trg \<and> trg \<noteq> []
            \<and> steps_param params = Some stps \<and> stps \<noteq> []
            \<and> load h ctx (procedural_files w) ''procedural.json'' = Collection pstore
            \<and> (\<forall>m\<in>set (memories pstore). name m \<noteq> nm)
            \<and> (\<forall>m\<in>set (memories pstore). numeric_suffix ''proc'' (id' m) = None
                  \<longrightarrow> parseInt (replaceFirst (id' m) ''proc_'' []) = None)
            \<and> (\<forall>m\<in>set (memories pstore).
                  (case numeric_suffix ''proc'' (id' m) of None \<Rightarrow> True | Some n \<Rightarrow> n < 2 ^ 53))"
  then have fresh: "find (\<lambda>m. name m = nm) (memories pstore) = None"
    by (auto simp: find_None_iff)
  have "generateId ''proc'' pstore =
          ''proc'' @ ''_'' @ padStart 3 (CHR ''0'') (numToString (Suc (prior_maximum ''proc'' (memories pstore))))"
    using a by (intro gen) simp
  then have id: "generateId ''proc'' pstore =
          ''proc_'' @ padStart 3 (CHR ''0'') (numToString (Suc (prior_maximum ''proc'' (memories pstore))))"
    by simp
  show "\<exists>r w'. memory_write h ctx w params = Inr (r, w')
                 \<and> result_details r =
                     ActionId Created
                       (''proc_'' @ padStart 3 (CHR ''0'')
                          (numToString (Suc (prior_maximum ''proc'' (memories pstore)))))"
    using a fresh unfolding id [symmetric]
    by (simp add: memory_write_def write_procedural_def Let_def)
qed

theorem C4_generateId_witness:
  "generateId ''proc''
     \<lparr>memories = [\<lparr>id' = ''proc_001'', tags = [], sourceSession = []\<rparr>,
                  \<lparr>id' = ''proc_007'', tags = [], sourceSession = []\<rparr>,
                  \<lparr>id' = ''ep_100'', tags = [], sourceSession = []\<rparr>,
                  \<lparr>id' = ''proc_abc'', tags = [], sourceSession = []\<rparr>]\<rparr>
   = ''proc_008''"
proof -
  let ?ms = "[\<lparr>id' = ''proc_001'', tags = [], sourceSession = []\<rparr>,
              \<lparr>id' = ''proc_007'', tags = [], sourceSession = []\<rparr>,
              \<lparr>id' = ''ep_100'', tags = [], sourceSession = []\<rparr>,
              \<lparr>id' = ''proc_abc'', tags = [], sourceSession = []\<rparr>]"
  have a: "\<forall>m\<in>set (memories \<lparr>memories = ?ms\<rparr>). numeric_suffix ''proc'' (id' m) = None
             \<longrightarrow> parseInt (replaceFirst (id' m) (''proc'' @ ''_'') []) = None"
    by code_simp
  have vals: "map (\<lambda>m. numeric_suffix ''proc'' (id' m)) ?ms = [Some 1, Some 7, None, None]"
    by code_simp
  have "list_all (\<lambda>v. case v of None \<Rightarrow> True | Some n \<Rightarrow> n < 2 ^ 53)
          (map (\<lambda>m. numeric_suffix ''proc'' (id' m)) ?ms)"
    unfolding vals by simp
  then have b: "\<forall>m\<in>set (memories \<lparr>memories = ?ms\<rparr>).
             (case numeric_suffix ''proc'' (id' m) of None \<Rightarrow> True | Some n \<Rightarrow> n < 2 ^ 53)"
    by (simp add: list_all_iff)
  have c: "''proc'' @ ''_'' @ padStart 3 (CHR ''0'')
             (numToString (Suc (prior_maximum ''proc'' (memories \<lparr>memories = ?ms\<rparr>))))
           = ''proc_008''"
    by code_simp
  show ?thesis
    using conjunct1 [OF C4_generateId_next_identifier [OF a b]] unfolding c .
qed

text \<open>
  The claim as stated fails on identifiers that \<open>parseInt\<close> reads a number from although
  they have no numeric suffix under the prefix: an identifier under another prefix that
  starts with digits, a suffix that starts with digits and goes on with letters, and a
  suffix of digits after a no-break space. The three collections have no numeric suffix
  under \<open>proc\<close>, and the next identifier is not \<open>proc_001\<close>.
\<close>

theorem C4_generateId_counterexample:
  "prior_maximum ''proc'' [\<lparr>id' = ''42_7'', tags = [], sourceSession = []\<rparr>] = 0
   \<and> generateId ''proc'' \<lparr>memories = [\<lparr>id' = ''42_7'', tags = [], sourceSession = []\<rparr>]\<rparr>
       = ''proc_043''
   \<and> prior_maximum ''proc'' [\<lparr>id' = ''proc_12abc'', tags = [], sourceSession = []\<rparr>] = 0
   \<and> generateId ''proc'' \<lparr>memories = [\<lparr>id' = ''proc_12abc'', tags = [], sourceSession = []\<rparr>]\<rparr>
       = ''proc_013''
   \<and> prior_maximum ''proc''
         [\<lparr>id' = ''proc_'' @ [CHR 0xA0] @ ''5'', tags = [], sourceSession = []\<rparr>] = 0
   \<and> generateId ''proc''
         \<lparr>memories = [\<lparr>id' = ''proc_'' @ [CHR 0xA0] @ ''5'', tags = [], sourceSession = []\<rparr>]\<rparr>
       = ''proc_006''"
  by code_simp


section \<open>Compaction: claims\<close>

lemma splitOn_no_separator: "\<forall>c\<in>set s. \<not> P c \<Longrightarrow> splitOn P s = [s]"
  using splitOn_run [of s P "[]"] by simp

lemma split_comma_plain: "CHR '','' \<notin> set s \<Longrightarrow> split_comma s = [s]"
  unfolding split_comma_def by (rule splitOn_no_separator) auto

text \<open>
  C1, as the source has it. Three episodes with the tag sets \<open>{a}\<close>, \<open>{b}\<close> and \<open>{a, b}\<close>,
  in that order, for two different non-empty tags of which \<open>a\<close> has no comma, the tags of
  the third record in either order: the third record joins the first group that shares a
  tag with it, the group of the first record, and the pass goes on to the next record. The
  group of the second record is never joined. The output is the second record unchanged,
  followed by the consolidation of the first and the third.
\<close>

theorem C1_compact_three_episodes:
  assumes "tags e1 = [a]" and "tags e2 = [b]" and "tags e3 = [a, b] \<or> tags e3 = [b, a]"
      and "a \<noteq> b" and "a \<noteq> []" and "b \<noteq> []" and "CHR '','' \<notin> set a"
  shows "compactEpisodicMemories [e1, e2, e3] = [e2, mergeGroup [e1, e3]]
       \<and> length (compactEpisodicMemories [e1, e2, e3]) = 2
       \<and> id' (mergeGroup [e1, e3]) = id' e1
       \<and> tags (mergeGroup [e1, e3]) = [a, b]
       \<and> summary (mergeGroup [e1, e3]) = ''Consolidated: '' @ summary e1 @ ''; '' @ summary e3
       \<and> date (mergeGroup [e1, e3]) = date e3
       \<and> sourceSession (mergeGroup [e1, e3]) = sourceSession e3"
proof -
  have sa: "split_comma a = [a]"
    using assms(7) by (rule split_comma_plain)
  have k: "b \<noteq> a @ CHR '','' # b"
  proof
    assume "b = a @ CHR '','' # b"
    then have "length b = length (a @ CHR '','' # b)" by (rule arg_cong)
    then show False by simp
  qed
  have s1: "place [] e1 = [(a, [e1])]"
    using assms(1,5) by (simp add: place_def)
  have s2: "place [(a, [e1])] e2 = [(a, [e1]), (b, [e2])]"
    using assms(2,4,6) sa by (simp add: place_def)
  have s3: "place [(a, [e1]), (b, [e2])] e3 = [(b, [e2]), (a @ '','' @ b, [e1, e3])]"
  proof -
    have "list_ex (\<lambda>t. t \<in> set (split_comma a)) (tags e3)"
      using assms(3) sa by auto
    moreover have "uniq (uniq (split_comma a) @ tags e3) = [a, b]"
      using assms(3,4) sa by auto
    ultimately show ?thesis
      using k assms(4) by (simp add: place_def Map_delete_def)
  qed
  have "foldl place [] [e1, e2, e3] = [(b, [e2]), (a @ '','' @ b, [e1, e3])]"
    by (simp add: s1 s2 s3)
  then have out: "compactEpisodicMemories [e1, e2, e3] = [e2, mergeGroup [e1, e3]]"
    by (simp add: compactEpisodicMemories_def emit_def)
  have tg: "tags (mergeGroup [e1, e3]) = [a, b]"
    using assms(1,3,4) by (auto simp: mergeGroup_def)
  show ?thesis
    using out tg by (simp add: mergeGroup_def)
qed

theorem C1_compact_three_witness:
  "compactEpisodicMemories
     [example_episode ''1'' [''infra''], example_episode ''2'' [''db''],
      example_episode ''3'' [''infra'', ''db'']]
   = [example_episode ''2'' [''db''],
      \<lparr>id' = ''ep_001'', tags = [''infra'', ''db''], sourceSession = ''session_3'',
       summary = ''Consolidated: task 1; task 3'', details = [''step 1'', ''step 3''],
       reflection = None, date = ''2024-05-03''\<rparr>]"
proof -
  have m: "mergeGroup [example_episode ''1'' [''infra''], example_episode ''3'' [''infra'', ''db'']]
         = \<lparr>id' = ''ep_001'', tags = [''infra'', ''db''], sourceSession = ''session_3'',
            summary = ''Consolidated: task 1; task 3'', details = [''step 1'', ''step 3''],
            reflection = None, date = ''2024-05-03''\<rparr>"
    by code_simp
  show ?thesis
    using C1_compact_three_episodes
            [of "example_episode ''1'' [''infra'']" "''infra''"
                "example_episode ''2'' [''db'']" "''db''"
                "example_episode ''3'' [''infra'', ''db'']"]
    unfolding m by (simp add: example_episode_def)
qed

text \<open>
  The claim as stated fails: the three records do not come out as one consolidated
  record. The output has two records, and the second input record is one of them,
  unchanged.
\<close>

theorem C1_compact_three_counterexample:
  "length (compactEpisodicMemories
     [example_episode ''1'' [''a''], example_episode ''2'' [''b''],
      example_episode ''3'' [''a'', ''b'']]) = 2
   \<and> hd (compactEpisodicMemories
     [example_episode ''1'' [''a''], example_episode ''2'' [''b''],
      example_episode ''3'' [''a'', ''b'']]) = example_episode ''2'' [''b'']"
  by code_simp

lemma splitOn_pieces_all: "\<forall>p\<in>set (splitOn P s). \<forall>c\<in>set p. \<not> P c"
  by (induction s) (auto split: list.splits if_splits)

lemma splitOn_pieces: "p \<in> set (splitOn P s) \<Longrightarrow> c \<in> set p \<Longrightarrow> \<not> P c"
  using splitOn_pieces_all by blast

lemma khead_mem: "khead k \<in> set (split_comma k)"
  unfolding khead_def split_comma_def using splitOn_not_Nil by (metis hd_in_set)

lemma khead_no_comma: "CHR '','' \<notin> set (khead k)"
  using khead_mem [of k] splitOn_pieces [of "khead k" "\<lambda>c. c = CHR '',''" k]
  unfolding split_comma_def by blast

lemma khead_plain: "CHR '','' \<notin> set s \<Longrightarrow> khead s = s"
  by (simp add: khead_def split_comma_plain)

lemma join_Cons: "join sep (t # ts) = t @ (if ts = [] then [] else sep @ join sep ts)"
  by (cases ts) simp_all

lemma khead_join: "CHR '','' \<notin> set t \<Longrightarrow> khead (join '','' (t # ts)) = t"
proof -
  assume t: "CHR '','' \<notin> set t"
  let ?b = "if ts = [] then [] else '','' @ join '','' ts"
  have "hd (splitOn (\<lambda>c. c = CHR '','') ?b) = []"
    by simp
  moreover have "splitOn (\<lambda>c. c = CHR '','') (t @ ?b)
      = (t @ hd (splitOn (\<lambda>c. c = CHR '','') ?b)) # tl (splitOn (\<lambda>c. c = CHR '','') ?b)"
    using t by (intro splitOn_run) auto
  ultimately show ?thesis
    unfolding khead_def split_comma_def join_Cons by simp
qed

lemma merged_key_head:
  "khead (join '','' (uniq (uniq (split_comma k) @ ts))) = khead k"
proof -
  obtain p ps where sp: "split_comma k = p # ps"
    using splitOn_not_Nil [of "\<lambda>c. c = CHR '',''" k] unfolding split_comma_def
    by (cases "splitOn (\<lambda>c. c = CHR '','') k") auto
  have p: "p = khead k" by (simp add: khead_def sp)
  obtain rest where "uniq (uniq (split_comma k) @ ts) = p # rest"
    by (simp add: sp)
  then show ?thesis
    using khead_join [of p rest] khead_no_comma [of k] p by simp
qed

lemma Map_set_fresh: "k \<notin> fst ` set es \<Longrightarrow> Map_set k v es = es @ [(k, v)]"
  by (induction es) auto

lemma find_Some_split:
  "find P xs = Some x \<Longrightarrow> \<exists>A B. xs = A @ x # B \<and> P x \<and> (\<forall>a\<in>set A. \<not> P a)"
proof (induction xs)
  case Nil
  then show ?case by simp
next
  case (Cons a xs)
  show ?case
  proof (cases "P a")
    case True
    with Cons.prems have "a # xs = [] @ x # xs \<and> P x \<and> (\<forall>a\<in>set []. \<not> P a)" by simp
    then show ?thesis by blast
  next
    case False
    with Cons.prems obtain A B where "xs = A @ x # B" "P x" "\<forall>a\<in>set A. \<not> P a"
      using Cons.IH by auto
    with False have "a # xs = (a # A) @ x # B \<and> P x \<and> (\<forall>a\<in>set (a # A). \<not> P a)" by simp
    then show ?thesis by blast
  qed
qed


lemma Map_delete_split:
  assumes "\<forall>e\<in>set A. khead (fst e) \<noteq> khead k" and "\<forall>e\<in>set B. khead (fst e) \<noteq> khead k"
  shows "Map_delete k (A @ (k, g) # B) = A @ B"
proof -
  have "filter (\<lambda>e. fst e \<noteq> k) A = A"
    using assms(1) by (intro filter_True) auto
  moreover have "filter (\<lambda>e. fst e \<noteq> k) B = B"
    using assms(2) by (intro filter_True) auto
  ultimately show ?thesis
    by (simp add: Map_delete_def)
qed

lemma place_fresh_form:
  assumes inv: "compaction_inv tg seen"
      and none: "find (\<lambda>(key, grp). list_ex (\<lambda>t. t \<in> set (split_comma key)) (tags m)) tg = None"
      and s1: "tags m \<noteq> [] \<Longrightarrow> hd (tags m) \<noteq> [] \<and> CHR '','' \<notin> set (hd (tags m))"
      and s2: "tags m = [] \<Longrightarrow> CHR '','' \<notin> set (id' m) \<and> id' m \<notin> set (map opener seen)"
  shows "place tg m = tg @ [(if tags m = [] then id' m else join '','' (tags m), [m])]
       \<and> khead (if tags m = [] then id' m else join '','' (tags m)) = opener m
       \<and> opener m \<notin> set (map (\<lambda>e. khead (fst e)) tg)"
proof -
  define k0 where "k0 = (if join '','' (tags m) \<noteq> [] then join '','' (tags m) else id' m)"
  define heads where "heads = map (\<lambda>e. khead (fst e)) tg"
  have unm: "\<forall>e\<in>set tg. \<not> list_ex (\<lambda>t. t \<in> set (split_comma (fst e))) (tags m)"
    using none by (auto simp: find_None_iff)
  have k0: "k0 = (if tags m = [] then id' m else join '','' (tags m))"
  proof (cases "tags m")
    case Nil
    then show ?thesis by (simp add: k0_def)
  next
    case (Cons t ts)
    then have "t \<noteq> []" using s1 by auto
    then have "join '','' (t # ts) \<noteq> []" by (simp add: join_Cons)
    then show ?thesis using Cons by (simp add: k0_def)
  qed
  have h0: "khead k0 = opener m"
  proof (cases "tags m")
    case Nil
    then show ?thesis using s2 by (simp add: k0 opener_def khead_plain)
  next
    case (Cons t ts)
    then have "CHR '','' \<notin> set t" using s1 by auto
    then show ?thesis using Cons by (simp add: k0 opener_def khead_join)
  qed
  have fresh: "opener m \<notin> set heads"
  proof (cases "tags m")
    case Nil
    then have "id' m \<notin> set (map opener seen)" using s2 by simp
    moreover have "set heads \<subseteq> set (map opener seen)"
      using inv by (simp add: compaction_inv_def heads_def)
    ultimately show ?thesis using Nil by (auto simp: opener_def)
  next
    case (Cons t ts)
    have "t \<noteq> khead (fst e)" if "e \<in> set tg" for e
    proof
      assume "t = khead (fst e)"
      then have "t \<in> set (split_comma (fst e))" using khead_mem by simp
      then have "list_ex (\<lambda>t. t \<in> set (split_comma (fst e))) (tags m)"
        using Cons by (auto simp: list_ex_iff)
      with unm that show False by blast
    qed
    then show ?thesis using Cons by (auto simp: opener_def heads_def)
  qed
  have "k0 \<notin> fst ` set tg"
  proof
    assume "k0 \<in> fst ` set tg"
    then obtain e where e: "e \<in> set tg" "fst e = k0"
      by blast
    then have "khead k0 \<in> set heads" by (auto simp: heads_def)
    with h0 fresh show False by simp
  qed
  then have "Map_set k0 [m] tg = tg @ [(k0, [m])]"
    by (rule Map_set_fresh)
  then have "place tg m = tg @ [(k0, [m])]"
    using none by (simp add: place_def k0_def)
  then show ?thesis
    using h0 fresh unfolding k0 heads_def by simp
qed

lemma place_fresh:
  assumes inv: "compaction_inv tg seen"
      and none: "find (\<lambda>(key, grp). list_ex (\<lambda>t. t \<in> set (split_comma key)) (tags m)) tg = None"
      and s1: "tags m \<noteq> [] \<Longrightarrow> hd (tags m) \<noteq> [] \<and> CHR '','' \<notin> set (hd (tags m))"
      and s2: "tags m = [] \<Longrightarrow> CHR '','' \<notin> set (id' m) \<and> id' m \<notin> set (map opener seen)"
  shows "compaction_inv (place tg m) (seen @ [m])"
proof -
  define k0 where "k0 = (if tags m = [] then id' m else join '','' (tags m))"
  define heads where "heads = map (\<lambda>e. khead (fst e)) tg"
  have pl: "place tg m = tg @ [(k0, [m])]" and h0: "khead k0 = opener m"
    and fresh: "opener m \<notin> set heads"
    using place_fresh_form [OF assms] unfolding k0_def heads_def by simp_all
  have sub: "subseq (map (\<lambda>e. last (snd e)) tg @ [m]) (seen @ [m])"
    using inv by (auto simp: compaction_inv_def intro: list_emb_append_mono)
  have c1: "distinct (map (\<lambda>e. khead (fst e)) (tg @ [(k0, [m])]))"
    using inv fresh by (simp add: compaction_inv_def h0 heads_def)
  have c2: "list_all (\<lambda>e. snd e \<noteq> []) (tg @ [(k0, [m])])"
    using inv by (simp add: compaction_inv_def)
  have "set heads \<subseteq> set (map opener seen)"
    using inv by (simp add: compaction_inv_def heads_def)
  then have c4: "set (map (\<lambda>e. khead (fst e)) (tg @ [(k0, [m])])) \<subseteq> set (map opener (seen @ [m]))"
    unfolding heads_def by (auto simp: h0)
  have c5: "mset (concat (map snd (tg @ [(k0, [m])]))) = mset (seen @ [m])"
    using inv by (simp add: compaction_inv_def)
  show ?thesis
    unfolding pl compaction_inv_def using c1 c2 sub c4 c5 by simp
qed

lemma place_join_form:
  assumes inv: "compaction_inv tg seen"
      and some: "find (\<lambda>(key, grp). list_ex (\<lambda>t. t \<in> set (split_comma key)) (tags m)) tg
                   = Some (k, g)"
      and tg: "tg = A @ (k, g) # B"
  shows "place tg m = A @ B @ [(join '','' (uniq (uniq (split_comma k) @ tags m)), g @ [m])]"
proof -
  define k' where "k' = join '','' (uniq (uniq (split_comma k) @ tags m))"
  define hd_of :: "string \<times> EpisodicMemory list \<Rightarrow> string" where "hd_of = (\<lambda>e. khead (fst e))"
  have hk: "khead k' = khead k" unfolding k'_def by (rule merged_key_head)
  have dist: "distinct (map hd_of A @ khead k # map hd_of B)"
    using inv by (simp add: compaction_inv_def tg hd_of_def)
  then have d: "khead k \<notin> set (map hd_of A)" "khead k \<notin> set (map hd_of B)"
    by auto
  have nA: "\<forall>e\<in>set A. khead (fst e) \<noteq> khead k"
  proof
    fix e assume "e \<in> set A"
    then have "hd_of e \<in> set (map hd_of A)" by simp
    with d(1) have "hd_of e \<noteq> khead k" by metis
    then show "khead (fst e) \<noteq> khead k" by (simp add: hd_of_def)
  qed
  have nB: "\<forall>e\<in>set B. khead (fst e) \<noteq> khead k"
  proof
    fix e assume "e \<in> set B"
    then have "hd_of e \<in> set (map hd_of B)" by simp
    with d(2) have "hd_of e \<noteq> khead k" by metis
    then show "khead (fst e) \<noteq> khead k" by (simp add: hd_of_def)
  qed
  have del: "Map_delete k tg = A @ B"
    unfolding tg using nA nB by (rule Map_delete_split)
  have "k' \<notin> fst ` set (A @ B)"
  proof
    assume "k' \<in> fst ` set (A @ B)"
    then obtain e where "e \<in> set (A @ B)" and "fst e = k'"
      by blast
    then have e: "e \<in> set A \<or> e \<in> set B" "fst e = k'"
      by simp_all
    then have "khead (fst e) = khead k" using hk by simp
    with e(1) nA nB show False by blast
  qed
  then have "Map_set k' (g @ [m]) (A @ B) = (A @ B) @ [(k', g @ [m])]"
    by (rule Map_set_fresh)
  then show ?thesis
    using some del by (simp add: place_def Let_def k'_def)
qed

lemma place_join:
  assumes inv: "compaction_inv tg seen"
      and some: "find (\<lambda>(key, grp). list_ex (\<lambda>t. t \<in> set (split_comma key)) (tags m)) tg
                   = Some (k, g)"
  shows "compaction_inv (place tg m) (seen @ [m])"
proof -
  define k' where "k' = join '','' (uniq (uniq (split_comma k) @ tags m))"
  define hd_of :: "string \<times> EpisodicMemory list \<Rightarrow> string" where "hd_of = (\<lambda>e. khead (fst e))"
  define last_of :: "string \<times> EpisodicMemory list \<Rightarrow> EpisodicMemory" where "last_of = (\<lambda>e. last (snd e))"
  obtain A B where tg: "tg = A @ (k, g) # B"
    using find_Some_split [OF some] by blast
  have hk: "khead k' = khead k" unfolding k'_def by (rule merged_key_head)
  have dist: "distinct (map hd_of A @ khead k # map hd_of B)"
    using inv by (simp add: compaction_inv_def tg hd_of_def)
  have pl: "place tg m = A @ B @ [(k', g @ [m])]"
    unfolding k'_def using inv some tg by (rule place_join_form)
  have "subseq (map last_of A @ map last_of B) (map last_of A @ last g # map last_of B)"
    by (intro list_emb_append_mono) auto
  moreover have "subseq (map last_of A @ last g # map last_of B) seen"
    using inv unfolding tg by (simp add: compaction_inv_def last_of_def)
  ultimately have "subseq (map last_of A @ map last_of B) seen"
    by (rule subseq_order.order_trans)
  then have "subseq ((map last_of A @ map last_of B) @ [m]) (seen @ [m])"
    by (intro list_emb_append_mono) auto
  then have c3: "subseq (map (\<lambda>e. last (snd e)) (A @ B @ [(k', g @ [m])])) (seen @ [m])"
    by (simp add: last_of_def)
  have "distinct (map hd_of A @ map hd_of B @ [khead k'])"
    using dist by (auto simp: hk)
  then have c1: "distinct (map (\<lambda>e. khead (fst e)) (A @ B @ [(k', g @ [m])]))"
    by (simp add: hd_of_def)
  have c2: "list_all (\<lambda>e. snd e \<noteq> []) (A @ B @ [(k', g @ [m])])"
    using inv unfolding tg by (simp add: compaction_inv_def)
  have "set (map hd_of A @ khead k # map hd_of B) \<subseteq> set (map opener seen)"
    using inv by (simp add: compaction_inv_def tg hd_of_def)
  then have "set (map hd_of A @ map hd_of B @ [khead k']) \<subseteq> set (map opener (seen @ [m]))"
    by (auto simp: hk)
  then have c4: "set (map (\<lambda>e. khead (fst e)) (A @ B @ [(k', g @ [m])])) \<subseteq> set (map opener (seen @ [m]))"
    by (simp add: hd_of_def)
  have "mset (concat (map snd (A @ (k, g) # B))) = mset seen"
    using inv unfolding tg by (simp add: compaction_inv_def)
  then have c5: "mset (concat (map snd (A @ B @ [(k', g @ [m])]))) = mset (seen @ [m])"
    by (simp add: ac_simps)
  show ?thesis
    unfolding pl compaction_inv_def using c1 c2 c3 c4 c5 by simp
qed

lemma place_inv:
  assumes "compaction_inv tg seen"
      and "tags m \<noteq> [] \<Longrightarrow> hd (tags m) \<noteq> [] \<and> CHR '','' \<notin> set (hd (tags m))"
      and "tags m = [] \<Longrightarrow> CHR '','' \<notin> set (id' m) \<and> id' m \<notin> set (map opener seen)"
  shows "compaction_inv (place tg m) (seen @ [m])"
proof (cases "find (\<lambda>(key, grp). list_ex (\<lambda>t. t \<in> set (split_comma key)) (tags m)) tg")
  case None
  with assms show ?thesis by (intro place_fresh)
next
  case (Some e)
  obtain k g where "e = (k, g)" by (cases e)
  with Some assms(1) show ?thesis by (intro place_join [of tg seen m k g]) simp_all
qed

lemma plain_tags_step:
  assumes "plain_tags (seen @ m # rest)"
  shows "tags m \<noteq> [] \<Longrightarrow> hd (tags m) \<noteq> [] \<and> CHR '','' \<notin> set (hd (tags m))"
    and "tags m = [] \<Longrightarrow> CHR '','' \<notin> set (id' m) \<and> id' m \<notin> set (map opener seen)"
proof -
  have h1: "\<forall>t\<in>set (tags m). t \<noteq> [] \<and> CHR '','' \<notin> set t"
    using assms by (simp add: plain_tags_def list_all_iff)
  show "hd (tags m) \<noteq> [] \<and> CHR '','' \<notin> set (hd (tags m))" if "tags m \<noteq> []"
    using h1 that hd_in_set by blast
  show "CHR '','' \<notin> set (id' m) \<and> id' m \<notin> set (map opener seen)" if t: "tags m = []"
  proof
    show "CHR '','' \<notin> set (id' m)"
      using assms t by (simp add: plain_tags_def list_all_iff)
    have notag: "\<forall>d\<in>set seen. id' m \<notin> set (tags d)"
      using assms t by (simp add: plain_tags_def list_all_iff)
    have "distinct (map id' (filter (\<lambda>m. tags m = []) seen) @ id' m # map id' (filter (\<lambda>m. tags m = []) rest))"
      using assms t by (simp add: plain_tags_def)
    then have other: "id' m \<notin> set (map id' (filter (\<lambda>m. tags m = []) seen))"
      by simp
    show "id' m \<notin> set (map opener seen)"
    proof
      assume "id' m \<in> set (map opener seen)"
      then obtain d where d: "d \<in> set seen" "opener d = id' m" by auto
      show False
      proof (cases "tags d")
        case Nil
        with d have "id' d = id' m" by (simp add: opener_def)
        moreover have "d \<in> set (filter (\<lambda>m. tags m = []) seen)" using d(1) Nil by simp
        ultimately have "id' m \<in> set (map id' (filter (\<lambda>m. tags m = []) seen))"
          by (metis image_eqI set_map)
        with other show False by blast
      next
        case (Cons t ts)
        with d have "id' m \<in> set (tags d)" by (simp add: opener_def)
        with notag d(1) show False by blast
      qed
    qed
  qed
qed

lemma foldl_place_inv:
  assumes "compaction_inv tg seen" and "plain_tags (seen @ ms)"
  shows "compaction_inv (foldl place tg ms) (seen @ ms)"
  using assms
proof (induction ms arbitrary: tg seen)
  case Nil
  then show ?case by simp
next
  case (Cons m ms)
  have "compaction_inv (place tg m) (seen @ [m])"
    using Cons.prems(1) plain_tags_step [OF Cons.prems(2)] by (intro place_inv)
  moreover have "plain_tags ((seen @ [m]) @ ms)"
    using Cons.prems(2) by simp
  ultimately have "compaction_inv (foldl place (place tg m) ms) ((seen @ [m]) @ ms)"
    by (rule Cons.IH)
  then show ?case by simp
qed

lemma compact_as_groups:
  "compactEpisodicMemories ms = concat (map emit (map snd (foldl place [] ms)))"
proof (cases ms)
  case Nil
  then show ?thesis by (simp add: compactEpisodicMemories_def)
next
  case (Cons m rest)
  show ?thesis
  proof (cases rest)
    case Nil
    with Cons show ?thesis
      by (simp add: compactEpisodicMemories_def place_def emit_def)
  next
    case (Cons m' rest')
    with \<open>ms = m # rest\<close> show ?thesis
      by (simp add: compactEpisodicMemories_def case_prod_unfold comp_def)
  qed
qed

lemma Map_set_entries: "set (Map_set k v es) \<subseteq> insert (k, v) (set es)"
  by (induction es) (auto split: if_splits)

lemma Map_delete_entries: "set (Map_delete k es) \<subseteq> set es"
  by (auto simp: Map_delete_def)

lemma place_groups:
  assumes "\<forall>e\<in>set tg. snd e \<noteq> [] \<and> set (snd e) \<subseteq> set seen"
  shows "\<forall>e\<in>set (place tg m). snd e \<noteq> [] \<and> set (snd e) \<subseteq> set (seen @ [m])"
proof (cases "find (\<lambda>(key, grp). list_ex (\<lambda>t. t \<in> set (split_comma key)) (tags m)) tg")
  case None
  define k0 where "k0 = (if join '','' (tags m) \<noteq> [] then join '','' (tags m) else id' m)"
  have "place tg m = Map_set k0 [m] tg"
    using None by (simp add: place_def k0_def)
  then have "set (place tg m) \<subseteq> insert (k0, [m]) (set tg)"
    using Map_set_entries [of k0 "[m]" tg] by simp
  with assms show ?thesis by fastforce
next
  case (Some e)
  obtain k g where e: "e = (k, g)" by (cases e)
  with Some have "(k, g) \<in> set tg"
    by (auto simp: find_Some_iff in_set_conv_nth)
  with assms have g: "set g \<subseteq> set seen" by fastforce
  define k' where "k' = join '','' (uniq (uniq (split_comma k) @ tags m))"
  have "place tg m = Map_set k' (g @ [m]) (Map_delete k tg)"
    using Some e by (simp add: place_def Let_def k'_def)
  then have "set (place tg m) \<subseteq> insert (k', g @ [m]) (set tg)"
    using Map_set_entries [of k' "g @ [m]" "Map_delete k tg"] Map_delete_entries [of k tg] by auto
  with assms g show ?thesis by fastforce
qed

lemma foldl_place_groups:
  assumes "\<forall>e\<in>set tg. snd e \<noteq> [] \<and> set (snd e) \<subseteq> set seen"
  shows "\<forall>e\<in>set (foldl place tg ms). snd e \<noteq> [] \<and> set (snd e) \<subseteq> set (seen @ ms)"
  using assms
proof (induction ms arbitrary: tg seen)
  case Nil
  then show ?case by simp
next
  case (Cons m ms)
  have "\<forall>e\<in>set (place tg m). snd e \<noteq> [] \<and> set (snd e) \<subseteq> set (seen @ [m])"
    using Cons.prems by (rule place_groups)
  then have "\<forall>e\<in>set (foldl place (place tg m) ms). snd e \<noteq> [] \<and> set (snd e) \<subseteq> set ((seen @ [m]) @ ms)"
    by (rule Cons.IH)
  then show ?case by simp
qed

lemma uniq_set: "set (uniq xs) = set xs"
  by (induction xs rule: uniq.induct) auto

lemma uniq_uniq_append: "uniq (uniq xs @ ys) = uniq (xs @ ys)"
proof (induction xs arbitrary: ys rule: uniq.induct)
  case 1
  then show ?case by simp
next
  case (2 x xs)
  have "filter (\<lambda>y. y \<noteq> x) (uniq (filter (\<lambda>y. y \<noteq> x) xs)) = uniq (filter (\<lambda>y. y \<noteq> x) xs)"
    by (intro filter_True) (simp add: uniq_set)
  then show ?case
    using 2 [of "filter (\<lambda>y. y \<noteq> x) ys"] by simp
qed

lemma split_join:
  "ts \<noteq> [] \<Longrightarrow> \<forall>t\<in>set ts. CHR '','' \<notin> set t \<Longrightarrow> split_comma (join '','' ts) = ts"
proof (induction "'',''" ts rule: join.induct)
  case 1
  then show ?case by simp
next
  case (2 x)
  then show ?case by (simp add: split_comma_plain)
next
  case (3 x y ys)
  have "splitOn (\<lambda>c. c = CHR '','') (x @ '','' @ join '','' (y # ys))
      = (x @ hd (splitOn (\<lambda>c. c = CHR '','') ('','' @ join '','' (y # ys))))
          # tl (splitOn (\<lambda>c. c = CHR '','') ('','' @ join '','' (y # ys)))"
    using 3(3) by (intro splitOn_run) auto
  then show ?case
    using 3 by (simp add: split_comma_def)
qed

lemma find_rel:
  assumes "list_all2 Q xs ys" and "\<And>x y. Q x y \<Longrightarrow> P x = P' y"
  shows "(find P xs = None \<and> find P' ys = None)
       \<or> (\<exists>A x B A' y B'. xs = A @ x # B \<and> ys = A' @ y # B' \<and> list_all2 Q A A' \<and> Q x y
             \<and> list_all2 Q B B' \<and> find P xs = Some x \<and> find P' ys = Some y
             \<and> y \<notin> set A')"
  using assms(1)
proof (induction rule: list_all2_induct)
  case Nil
  then show ?case by simp
next
  case (Cons x xs y ys)
  show ?case
  proof (cases "P x")
    case True
    then have "P' y" using Cons.hyps(1) assms(2) by blast
    with True Cons.hyps have "x # xs = [] @ x # xs \<and> y # ys = [] @ y # ys \<and> list_all2 Q [] [] \<and> Q x y
             \<and> list_all2 Q xs ys \<and> find P (x # xs) = Some x \<and> find P' (y # ys) = Some y
             \<and> y \<notin> set []"
      by simp
    then show ?thesis by blast
  next
    case False
    then have n: "\<not> P' y" using Cons.hyps(1) assms(2) by blast
    from Cons.IH show ?thesis
    proof
      assume "find P xs = None \<and> find P' ys = None"
      then show ?thesis using False n by simp
    next
      assume "\<exists>A x B A' y B'. xs = A @ x # B \<and> ys = A' @ y # B' \<and> list_all2 Q A A' \<and> Q x y
             \<and> list_all2 Q B B' \<and> find P xs = Some x \<and> find P' ys = Some y
             \<and> y \<notin> set A'"
      then obtain A x' B A' y' B' where h: "xs = A @ x' # B" "ys = A' @ y' # B'" "list_all2 Q A A'"
          "Q x' y'" "list_all2 Q B B'" "find P xs = Some x'" "find P' ys = Some y'" "y' \<notin> set A'"
        by blast
      have "P' y'" using h(7) by (auto simp: find_Some_iff)
      with n have "y' \<noteq> y" by auto
      with h False n Cons.hyps(1)
      have "x # xs = (x # A) @ x' # B \<and> y # ys = (y # A') @ y' # B' \<and> list_all2 Q (x # A) (y # A')
             \<and> Q x' y' \<and> list_all2 Q B B' \<and> find P (x # xs) = Some x' \<and> find P' (y # ys) = Some y'
             \<and> y' \<notin> set (y # A')"
        by simp
      then show ?thesis by blast
    qed
  qed
qed




lemma encodes_match:
  assumes "encodes T e c" and "set (tags m) \<subseteq> T"
  shows "(case e of (key, grp) \<Rightarrow> list_ex (\<lambda>t. t \<in> set (split_comma key)) (tags m))
       = (case c of (ts, grp) \<Rightarrow> list_ex (\<lambda>t. t \<in> set ts) (tags m))"
proof (cases "fst c = []")
  case True
  then have "CHR '','' \<notin> set (fst e)" "fst e \<notin> T"
    using assms(1) by (simp_all add: encodes_def)
  then have "split_comma (fst e) = [fst e]" "fst e \<notin> set (tags m)"
    using assms(2) by (auto simp: split_comma_plain)
  then show ?thesis
    using True by (auto simp: case_prod_unfold list_ex_iff)
next
  case False
  then have "fst e = join '','' (fst c)" "\<forall>t\<in>set (fst c). CHR '','' \<notin> set t"
    using assms(1) by (simp_all add: encodes_def)
  then have "split_comma (fst e) = fst c"
    using False by (simp add: split_join)
  then show ?thesis
    by (simp add: case_prod_unfold)
qed

lemma refine_step:
  assumes inv: "compaction_inv tg seen"
      and rel: "list_all2 (encodes T) tg cs"
      and pm: "\<forall>t\<in>set (tags m). t \<noteq> [] \<and> CHR '','' \<notin> set t"
      and sub: "set (tags m) \<subseteq> T"
      and s2: "tags m = [] \<Longrightarrow> CHR '','' \<notin> set (id' m) \<and> id' m \<notin> set (map opener seen) \<and> id' m \<notin> T"
  shows "list_all2 (encodes T) (place tg m) (cluster_step cs m)"
proof -
  define P where "P = (\<lambda>(key :: string, grp :: EpisodicMemory list). list_ex (\<lambda>t. t \<in> set (split_comma key)) (tags m))"
  define P' where "P' = (\<lambda>(ts :: string list, grp :: EpisodicMemory list). list_ex (\<lambda>t. t \<in> set ts) (tags m))"
  have corr: "P e = P' c" if "encodes T e c" for e c
    using encodes_match [OF that sub] by (simp add: P_def P'_def)
  have s1: "tags m \<noteq> [] \<Longrightarrow> hd (tags m) \<noteq> [] \<and> CHR '','' \<notin> set (hd (tags m))"
    using pm hd_in_set by blast
  have s2': "tags m = [] \<Longrightarrow> CHR '','' \<notin> set (id' m) \<and> id' m \<notin> set (map opener seen)"
    using s2 by simp
  from find_rel [of "encodes T" tg cs P P', OF rel corr]
  show ?thesis
  proof
    assume n: "find P tg = None \<and> find P' cs = None"
    then have none: "find (\<lambda>(key, grp). list_ex (\<lambda>t. t \<in> set (split_comma key)) (tags m)) tg = None"
      by (simp add: P_def)
    have pl: "place tg m = tg @ [(if tags m = [] then id' m else join '','' (tags m), [m])]"
      using place_fresh_form [OF inv none s1 s2'] by simp
    have cl: "cluster_step cs m = cs @ [(tags m, [m])]"
      using n by (simp add: cluster_step_def P'_def)
    have "encodes T (if tags m = [] then id' m else join '','' (tags m), [m]) (tags m, [m])"
      using s2 pm by (simp add: encodes_def)
    then show ?thesis
      unfolding pl cl using rel by (simp add: list_all2_appendI)
  next
    assume "\<exists>A x B A' y B'. tg = A @ x # B \<and> cs = A' @ y # B' \<and> list_all2 (encodes T) A A'
        \<and> encodes T x y \<and> list_all2 (encodes T) B B' \<and> find P tg = Some x \<and> find P' cs = Some y
        \<and> y \<notin> set A'"
    then obtain A x B A' y B' where h: "tg = A @ x # B" "cs = A' @ y # B'" "list_all2 (encodes T) A A'"
        "encodes T x y" "list_all2 (encodes T) B B'" "find P tg = Some x" "find P' cs = Some y"
        "y \<notin> set A'"
      by blast
    obtain k g where x: "x = (k, g)" by (cases x)
    obtain ts g' where y: "y = (ts, g')" by (cases y)
    have g: "g' = g" using h(4) by (simp add: encodes_def x y)
    have "P' y" using h(7) by (auto simp: find_Some_iff)
    then have "ts \<noteq> []" by (auto simp: P'_def y list_ex_iff)
    then have k: "k = join '','' ts" and plain: "\<forall>t\<in>set ts. CHR '','' \<notin> set t"
      using h(4) by (simp_all add: encodes_def x y)
    then have sp: "split_comma k = ts"
      using \<open>ts \<noteq> []\<close> by (simp add: split_join)
    have some: "find (\<lambda>(key, grp). list_ex (\<lambda>t. t \<in> set (split_comma key)) (tags m)) tg = Some (k, g)"
      using h(6) by (simp add: P_def x)
    have pl: "place tg m = A @ B @ [(join '','' (uniq (ts @ tags m)), g @ [m])]"
      using place_join_form [OF inv some] h(1) by (simp add: x sp uniq_uniq_append)
    have "remove1 y cs = A' @ B'"
      using h(8) by (simp add: h(2) remove1_append)
    then have cl: "cluster_step cs m = A' @ B' @ [(uniq (ts @ tags m), g @ [m])]"
      using h(7) by (simp add: cluster_step_def P'_def y g)
    have "uniq (ts @ tags m) \<noteq> []"
      using \<open>ts \<noteq> []\<close> by (cases ts) simp_all
    moreover have "\<forall>t\<in>set (uniq (ts @ tags m)). CHR '','' \<notin> set t"
      using plain pm by (auto simp: uniq_set)
    ultimately have "encodes T (join '','' (uniq (ts @ tags m)), g @ [m]) (uniq (ts @ tags m), g @ [m])"
      by (simp add: encodes_def)
    then show ?thesis
      unfolding pl cl using h(3) h(5) by (simp add: list_all2_appendI)
  qed
qed


lemma plain_tags_record:
  assumes "plain_tags ms" and "m \<in> set ms"
  shows "\<forall>t\<in>set (tags m). t \<noteq> [] \<and> CHR '','' \<notin> set t"
    and "tags m = [] \<Longrightarrow> id' m \<notin> (\<Union>d\<in>set ms. set (tags d))"
  using assms by (auto simp: plain_tags_def list_all_iff)

lemma foldl_refine:
  assumes "compaction_inv tg seen" and "list_all2 (encodes T) tg cs"
      and "plain_tags (seen @ ms)" and "T = (\<Union>d\<in>set (seen @ ms). set (tags d))"
  shows "compaction_inv (foldl place tg ms) (seen @ ms)
       \<and> list_all2 (encodes T) (foldl place tg ms) (foldl cluster_step cs ms)"
  using assms
proof (induction ms arbitrary: tg cs seen)
  case Nil
  then show ?case by simp
next
  case (Cons m ms)
  have mem: "m \<in> set (seen @ m # ms)" by simp
  have st: "tags m \<noteq> [] \<Longrightarrow> hd (tags m) \<noteq> [] \<and> CHR '','' \<notin> set (hd (tags m))"
           "tags m = [] \<Longrightarrow> CHR '','' \<notin> set (id' m) \<and> id' m \<notin> set (map opener seen)"
    using plain_tags_step [OF Cons.prems(3)] by blast+
  have inv: "compaction_inv (place tg m) (seen @ [m])"
    using Cons.prems(1) st by (intro place_inv)
  have pm: "\<forall>t\<in>set (tags m). t \<noteq> [] \<and> CHR '','' \<notin> set t"
    using plain_tags_record(1) [OF Cons.prems(3) mem] .
  have sub: "set (tags m) \<subseteq> T"
    unfolding Cons.prems(4) by auto
  have s2: "tags m = [] \<Longrightarrow> CHR '','' \<notin> set (id' m) \<and> id' m \<notin> set (map opener seen) \<and> id' m \<notin> T"
    using st(2) plain_tags_record(2) [OF Cons.prems(3) mem] unfolding Cons.prems(4) by blast
  have rel: "list_all2 (encodes T) (place tg m) (cluster_step cs m)"
    using Cons.prems(1,2) pm sub s2 by (rule refine_step)
  have "compaction_inv (foldl place (place tg m) ms) ((seen @ [m]) @ ms)
       \<and> list_all2 (encodes T) (foldl place (place tg m) ms) (foldl cluster_step (cluster_step cs m) ms)"
    using inv rel Cons.prems(3,4) by (intro Cons.IH) simp_all
  then show ?case by simp
qed

lemma encodes_groups: "list_all2 (encodes T) tg cs \<Longrightarrow> map snd tg = map snd cs"
  by (induction rule: list_all2_induct) (simp_all add: encodes_def)

lemma emit_groups:
  "\<forall>g\<in>set gs. g \<noteq> [] \<Longrightarrow>
     map emit gs = map (\<lambda>grp. if length grp = 1 then grp else [mergeGroup grp]) gs"
  by (induction gs) (auto simp: emit_def le_Suc_eq)

text \<open>
  C6, as the source has it. For every input, the output is made from the groups of the
  map that the pass builds, in the order of the map: a group of one record gives that
  record unchanged, a larger group gives its consolidation. On an input whose tags are
  non-empty strings without commas and whose records without tags have different
  identifiers that have no comma and are no tag of the input, the groups of the map are
  the clusters of the pass over tag lists, in the same order: the record joins the first
  cluster that has one of its tags, and that cluster moves behind every other one. So the
  clusters partition the input and stand in the order of their last members in the input:
  the order of the output is the order in which the clusters last received a record.
\<close>

theorem C6_compaction_output_order:
  "compactEpisodicMemories ms
     = concat (map (\<lambda>(key, grp). if length grp = 1 then grp else [mergeGroup grp])
                (foldl place [] ms))
   \<and> (plain_tags ms \<longrightarrow>
         map snd (foldl place [] ms) = map snd (foldl cluster_step [] ms)
       \<and> compactEpisodicMemories ms
           = concat (map (\<lambda>(ts, grp). if length grp = 1 then grp else [mergeGroup grp])
                      (foldl cluster_step [] ms))
       \<and> mset (concat (map snd (foldl cluster_step [] ms))) = mset ms
       \<and> subseq (map (\<lambda>c. last (snd c)) (foldl cluster_step [] ms)) ms)"
proof -
  let ?tg = "foldl place [] ms"
  let ?cs = "foldl cluster_step [] ms"
  let ?out = "\<lambda>grp. if length grp = 1 then grp else [mergeGroup grp]"
  have "\<forall>e\<in>set ?tg. snd e \<noteq> [] \<and> set (snd e) \<subseteq> set ([] @ ms)"
    by (rule foldl_place_groups) simp
  then have "\<forall>g\<in>set (map snd ?tg). g \<noteq> []"
    by simp
  then have "map emit (map snd ?tg) = map ?out (map snd ?tg)"
    by (rule emit_groups)
  then have a: "compactEpisodicMemories ms = concat (map ?out (map snd ?tg))"
    unfolding compact_as_groups [of ms] by (rule arg_cong)
  have a': "compactEpisodicMemories ms = concat (map (\<lambda>(key, grp). ?out grp) ?tg)"
    unfolding a by (simp add: case_prod_unfold comp_def)
  have b: "map snd ?tg = map snd ?cs
       \<and> compactEpisodicMemories ms = concat (map (\<lambda>(ts, grp). ?out grp) ?cs)
       \<and> mset (concat (map snd ?cs)) = mset ms
       \<and> subseq (map (\<lambda>c. last (snd c)) ?cs) ms"
    if pt: "plain_tags ms"
  proof -
    have "compaction_inv [] []"
      by (simp add: compaction_inv_def)
    moreover have "list_all2 (encodes (\<Union>d\<in>set ([] @ ms). set (tags d))) [] []"
      by simp
    ultimately have r: "compaction_inv ?tg ([] @ ms)
        \<and> list_all2 (encodes (\<Union>d\<in>set ([] @ ms). set (tags d))) ?tg ?cs"
      using pt by (intro foldl_refine) simp_all
    then have g: "map snd ?tg = map snd ?cs"
      using encodes_groups by blast
    have "mset (concat (map snd ?tg)) = mset ms" "subseq (map last (map snd ?tg)) ms"
      using r by (simp_all add: compaction_inv_def comp_def)
    then have "mset (concat (map snd ?cs)) = mset ms" "subseq (map last (map snd ?cs)) ms"
      unfolding g by simp_all
    moreover have "compactEpisodicMemories ms = concat (map ?out (map snd ?cs))"
      using a unfolding g .
    ultimately show ?thesis
      using g by (simp add: case_prod_unfold comp_def)
  qed
  show ?thesis
    using a' b by blast
qed


theorem C6_compaction_order_witness:
  "plain_tags
     [example_episode ''1'' [''infra''], example_episode ''2'' [], example_episode ''3'' [''db''],
      example_episode ''4'' [''db'', ''infra'']]
   \<and> foldl cluster_step []
       [example_episode ''1'' [''infra''], example_episode ''2'' [], example_episode ''3'' [''db''],
        example_episode ''4'' [''db'', ''infra'']]
     = [([], [example_episode ''2'' []]),
        ([''db''], [example_episode ''3'' [''db'']]),
        ([''infra'', ''db''],
         [example_episode ''1'' [''infra''], example_episode ''4'' [''db'', ''infra'']])]
   \<and> compactEpisodicMemories
       [example_episode ''1'' [''infra''], example_episode ''2'' [], example_episode ''3'' [''db''],
        example_episode ''4'' [''db'', ''infra'']]
     = [example_episode ''2'' [], example_episode ''3'' [''db''],
        mergeGroup [example_episode ''1'' [''infra''], example_episode ''4'' [''db'', ''infra'']]]"
proof -
  define input where "input =
     [example_episode ''1'' [''infra''], example_episode ''2'' [], example_episode ''3'' [''db''],
      example_episode ''4'' [''db'', ''infra'']]"
  have pt: "plain_tags input"
    unfolding input_def by code_simp
  have cs: "foldl cluster_step [] input
     = [([], [example_episode ''2'' []]),
        ([''db''], [example_episode ''3'' [''db'']]),
        ([''infra'', ''db''],
         [example_episode ''1'' [''infra''], example_episode ''4'' [''db'', ''infra'']])]"
    unfolding input_def by code_simp
  have "compactEpisodicMemories input
           = concat (map (\<lambda>(ts, grp). if length grp = 1 then grp else [mergeGroup grp])
                      (foldl cluster_step [] input))"
    using C6_compaction_output_order [of input] pt by blast
  then have "compactEpisodicMemories input
     = [example_episode ''2'' [], example_episode ''3'' [''db''],
        mergeGroup [example_episode ''1'' [''infra''], example_episode ''4'' [''db'', ''infra'']]]"
    unfolding cs by simp
  then show ?thesis
    using pt cs unfolding input_def by blast
qed

text \<open>
  The claim as stated fails: the group of the first record is opened first and the group
  of the second record after it, the third record joins the first group, and the output
  has the second record before the consolidation of the first and the third.
\<close>

theorem C6_compaction_order_counterexample:
  "map fst (foldl place []
     [example_episode ''1'' [''a''], example_episode ''2'' [''c'']]) = [''a'', ''c'']
   \<and> compactEpisodicMemories
       [example_episode ''1'' [''a''], example_episode ''2'' [''c''], example_episode ''3'' [''a'']]
     = [example_episode ''2'' [''c''],
        mergeGroup [example_episode ''1'' [''a''], example_episode ''3'' [''a'']]]
   \<and> map id' (compactEpisodicMemories
       [example_episode ''1'' [''a''], example_episode ''2'' [''c''], example_episode ''3'' [''a'']])
     = [''ep_002'', ''ep_001'']"
  by code_simp

section \<open>The prompt section: claims\<close>











end
